theory Spec2Isabelle
  imports Main "HOL-Library.Word"
begin

section \<open>Common notions\<close>

text \<open>
  Objects and heap blocks are identified by their address. A raw pointer \<open>T*\<close> is an
  \<open>addr option\<close>, with \<open>None\<close> for \<open>nullptr\<close>. The C++ member names \<open>ptr_\<close>,
  \<open>count_\<close> and \<open>deleter_\<close> end in an underscore, which is not a legal name here, so the
  fields are called \<open>ptr\<close>, \<open>count\<close>, \<open>deleter\<close> (\<open>uptr\<close>, \<open>udeleter\<close> for the exclusive
  handle).

  Every member function takes the program state and the address \<open>this\<close> of the object it
  is called on, and returns the new state, or \<open>None\<close> when the call has no defined
  behaviour: the object named is not alive, a constructor runs on an address that
  already holds a live object, \<open>new\<close> hands out a block that is still allocated, or the
  code reads a counter cell that has been freed.
\<close>

type_synonym addr = nat

section \<open>The exclusive handle (src/unique\_ptr/main.cpp)\<close>

text \<open>
  \<open>UniquePtr<T, Deleter>\<close>: the deleter is a value of the template parameter
  \<open>Deleter\<close>, here the type variable \<open>'d\<close>. Calling it is opaque to the handle: the model
  records the call (deleter and argument) in \<open>ulog\<close>.
\<close>

record 'd UniquePtr =
  uptr :: "addr option"
  udeleter :: 'd

record 'd ustate =
  uobjs :: "addr \<rightharpoonup> 'd UniquePtr"
  ulog :: "('d \<times> addr) list"

definition UniquePtr_ctor :: "'d ustate \<Rightarrow> addr \<Rightarrow> addr option \<Rightarrow> 'd \<Rightarrow> 'd ustate option" where
  "UniquePtr_ctor s this p d =
     (if uobjs s this \<noteq> None then None
      else Some (s\<lparr>uobjs := (uobjs s)(this \<mapsto> \<lparr>uptr = p, udeleter = d\<rparr>)\<rparr>))"

definition UniquePtr_reset :: "'d ustate \<Rightarrow> addr \<Rightarrow> addr option \<Rightarrow> 'd ustate option" where
  "UniquePtr_reset s this p =
     (case uobjs s this of
        None \<Rightarrow> None
      | Some u \<Rightarrow>
          let s1 = (case uptr u of
                      None \<Rightarrow> s
                    | Some q \<Rightarrow> s\<lparr>ulog := ulog s @ [(udeleter u, q)]\<rparr>)
          in Some (s1\<lparr>uobjs := (uobjs s1)(this \<mapsto> u\<lparr>uptr := p\<rparr>)\<rparr>))"

definition UniquePtr_dtor :: "'d ustate \<Rightarrow> addr \<Rightarrow> 'd ustate option" where
  "UniquePtr_dtor s this =
     (case UniquePtr_reset s this None of
        None \<Rightarrow> None
      | Some s1 \<Rightarrow> Some (s1\<lparr>uobjs := (uobjs s1)(this := None)\<rparr>))"

text \<open>
  The move constructor builds \<open>this\<close> from \<open>other.ptr_\<close> and the moved \<open>other.deleter_\<close>,
  then nulls \<open>other.ptr_\<close>. Moving a deleter leaves the source's deleter object in
  place; the model keeps its value.
\<close>

definition UniquePtr_move_ctor :: "'d ustate \<Rightarrow> addr \<Rightarrow> addr \<Rightarrow> 'd ustate option" where
  "UniquePtr_move_ctor s this other =
     (if uobjs s this \<noteq> None then None
      else case uobjs s other of
        None \<Rightarrow> None
      | Some o' \<Rightarrow>
          let s1 = s\<lparr>uobjs := (uobjs s)(this \<mapsto> \<lparr>uptr = uptr o', udeleter = udeleter o'\<rparr>)\<rparr>
          in Some (s1\<lparr>uobjs := (uobjs s1)(other \<mapsto> o'\<lparr>uptr := None\<rparr>)\<rparr>))"

text \<open>\<open>std::swap\<close> on one member of two objects (which may be the same object).\<close>

definition uswap_ptr :: "'d ustate \<Rightarrow> addr \<Rightarrow> addr \<Rightarrow> 'd ustate option" where
  "uswap_ptr s this other =
     (case uobjs s this of
        None \<Rightarrow> None
      | Some a \<Rightarrow>
         (case uobjs s other of
            None \<Rightarrow> None
          | Some b \<Rightarrow>
              Some (s\<lparr>uobjs := (uobjs s)(this \<mapsto> a\<lparr>uptr := uptr b\<rparr>,
                                            other \<mapsto> b\<lparr>uptr := uptr a\<rparr>)\<rparr>)))"

definition uswap_deleter :: "'d ustate \<Rightarrow> addr \<Rightarrow> addr \<Rightarrow> 'd ustate option" where
  "uswap_deleter s this other =
     (case uobjs s this of
        None \<Rightarrow> None
      | Some a \<Rightarrow>
         (case uobjs s other of
            None \<Rightarrow> None
          | Some b \<Rightarrow>
              Some (s\<lparr>uobjs := (uobjs s)(this \<mapsto> a\<lparr>udeleter := udeleter b\<rparr>,
                                            other \<mapsto> b\<lparr>udeleter := udeleter a\<rparr>)\<rparr>)))"

definition UniquePtr_swap :: "'d ustate \<Rightarrow> addr \<Rightarrow> addr \<Rightarrow> 'd ustate option" where
  "UniquePtr_swap s this other =
     (case uswap_ptr s this other of
        None \<Rightarrow> None
      | Some s1 \<Rightarrow> uswap_deleter s1 this other)"

definition UniquePtr_move_assign :: "'d ustate \<Rightarrow> addr \<Rightarrow> addr \<Rightarrow> 'd ustate option" where
  "UniquePtr_move_assign s this other = UniquePtr_swap s this other"

definition UniquePtr_get :: "'d ustate \<Rightarrow> addr \<Rightarrow> addr option option" where
  "UniquePtr_get s this = map_option uptr (uobjs s this)"

definition UniquePtr_bool :: "'d ustate \<Rightarrow> addr \<Rightarrow> bool option" where
  "UniquePtr_bool s this = map_option (\<lambda>u. uptr u \<noteq> None) (uobjs s this)"

text \<open>\<open>release()\<close> returns the old pointer together with the new state.\<close>

definition UniquePtr_release :: "'d ustate \<Rightarrow> addr \<Rightarrow> (addr option \<times> 'd ustate) option" where
  "UniquePtr_release s this =
     (case uobjs s this of
        None \<Rightarrow> None
      | Some u \<Rightarrow>
          let tmp = uptr u
          in Some (tmp, s\<lparr>uobjs := (uobjs s)(this \<mapsto> u\<lparr>uptr := None\<rparr>)\<rparr>))"

section \<open>The shared handle (src/shared\_ptr/main.cpp)\<close>

text \<open>
  A cleanup routine is a \<open>std::function<void(T*)>\<close> value. It is opaque to the handle,
  so the model names it and records each call in the trace, with the pointer it is
  given; the routine is taken to hold a callable and to return without touching
  handles or counter cells. The trace also records every \<open>new\<close> and \<open>delete\<close> of a
  counter cell. The resources themselves are not modelled: the handle only passes
  their address around (\<open>operator*\<close>, \<open>operator->\<close> and \<open>make_shared\<close> are left out).
\<close>

datatype deleter_fn = defaultDeleter | UserDeleter nat

datatype event = Invoke deleter_fn "addr option" | New addr | Delete addr

record SharedPtr =
  ptr :: "addr option"
  count :: "addr option"
  deleter :: deleter_fn

text \<open>
  The program state: the live \<open>SharedPtr\<close> objects, the allocated counter cells
  (\<open>std::atomic<int>\<close>, a 32-bit integer whose arithmetic wraps), and the trace.
\<close>

record state =
  objs :: "addr \<rightharpoonup> SharedPtr"
  cells :: "addr \<rightharpoonup> 32 word"
  trace :: "event list"

definition init :: state where
  "init = \<lparr>objs = Map.empty, cells = Map.empty, trace = []\<rparr>"

text \<open>
  \<open>new std::atomic<int>(v)\<close>. The address \<open>c\<close> is the one the allocator returns; it may
  be any address that is not allocated at that moment, also one freed earlier.
  Allocation is taken to succeed.
\<close>

definition new_atomic_int :: "state \<Rightarrow> addr \<Rightarrow> 32 word \<Rightarrow> state option" where
  "new_atomic_int s c v =
     (if cells s c \<noteq> None then None
      else Some (s\<lparr>cells := (cells s)(c \<mapsto> v), trace := trace s @ [New c]\<rparr>))"

definition SharedPtr_default :: "state \<Rightarrow> addr \<Rightarrow> state option" where
  "SharedPtr_default s this =
     (if objs s this \<noteq> None then None
      else Some (s\<lparr>objs := (objs s)(this \<mapsto>
                   \<lparr>ptr = None, count = None, deleter = defaultDeleter\<rparr>)\<rparr>))"

definition SharedPtr_bind :: "state \<Rightarrow> addr \<Rightarrow> addr option \<Rightarrow> deleter_fn \<Rightarrow> addr \<Rightarrow> state option" where
  "SharedPtr_bind s this p d c =
     (if objs s this \<noteq> None then None
      else case new_atomic_int s c 1 of
        None \<Rightarrow> None
      | Some s1 \<Rightarrow>
          Some (s1\<lparr>objs := (objs s1)(this \<mapsto> \<lparr>ptr = p, count = Some c, deleter = d\<rparr>)\<rparr>))"

definition acquire :: "state \<Rightarrow> addr \<Rightarrow> addr \<Rightarrow> state option" where
  "acquire s this other =
     (case objs s other of
        None \<Rightarrow> None
      | Some x \<Rightarrow>
          let s1 = s\<lparr>objs := (objs s)(this \<mapsto>
                      \<lparr>ptr = ptr x, count = count x, deleter = deleter x\<rparr>)\<rparr>
          in case count x of
               None \<Rightarrow> Some s1
             | Some c \<Rightarrow>
                (case cells s1 c of
                   None \<Rightarrow> None
                 | Some v \<Rightarrow> Some (s1\<lparr>cells := (cells s1)(c \<mapsto> v + 1)\<rparr>)))"

definition release :: "state \<Rightarrow> addr \<Rightarrow> state option" where
  "release s this =
     (case objs s this of
        None \<Rightarrow> None
      | Some x \<Rightarrow>
         (case count x of
            None \<Rightarrow> Some s
          | Some c \<Rightarrow>
             (case cells s c of
                None \<Rightarrow> None
              | Some v \<Rightarrow>
                  let s1 = s\<lparr>cells := (cells s)(c \<mapsto> v - 1)\<rparr>
                  in if v = 1
                     then Some (s1\<lparr>cells := (cells s1)(c := None),
                                  trace := trace s1 @ [Invoke (deleter x) (ptr x), Delete c]\<rparr>)
                     else Some s1)))"

definition SharedPtr_dtor :: "state \<Rightarrow> addr \<Rightarrow> state option" where
  "SharedPtr_dtor s this =
     (case release s this of
        None \<Rightarrow> None
      | Some s1 \<Rightarrow> Some (s1\<lparr>objs := (objs s1)(this := None)\<rparr>))"

definition SharedPtr_copy :: "state \<Rightarrow> addr \<Rightarrow> addr \<Rightarrow> state option" where
  "SharedPtr_copy s this other =
     (if objs s this \<noteq> None then None else acquire s this other)"

definition operator_assign :: "state \<Rightarrow> addr \<Rightarrow> addr \<Rightarrow> state option" where
  "operator_assign s this other =
     (if this \<noteq> other
      then (case release s this of
              None \<Rightarrow> None
            | Some s1 \<Rightarrow> acquire s1 this other)
      else Some s)"

definition operator_bool :: "state \<Rightarrow> addr \<Rightarrow> bool option" where
  "operator_bool s this = map_option (\<lambda>x. ptr x \<noteq> None) (objs s this)"

definition get :: "state \<Rightarrow> addr \<Rightarrow> addr option option" where
  "get s this = map_option ptr (objs s this)"

definition reset :: "state \<Rightarrow> addr \<Rightarrow> addr option \<Rightarrow> deleter_fn \<Rightarrow> addr \<Rightarrow> state option" where
  "reset s this p d c =
     (case release s this of
        None \<Rightarrow> None
      | Some s1 \<Rightarrow>
         (case new_atomic_int s1 c 1 of
            None \<Rightarrow> None
          | Some s2 \<Rightarrow>
              Some (s2\<lparr>objs := (objs s2)(this \<mapsto> \<lparr>ptr = p, count = Some c, deleter = d\<rparr>)\<rparr>)))"

text \<open>\<open>use_count()\<close> returns an \<open>int\<close>: the signed reading of the cell.\<close>

definition use_count :: "state \<Rightarrow> addr \<Rightarrow> int option" where
  "use_count s this =
     (case objs s this of
        None \<Rightarrow> None
      | Some x \<Rightarrow>
         (case count x of
            None \<Rightarrow> Some 0
          | Some c \<Rightarrow> map_option sint (cells s c)))"

text \<open>\<open>std::swap\<close> on one member of two objects (which may be the same object).\<close>

definition swap_ptr :: "state \<Rightarrow> addr \<Rightarrow> addr \<Rightarrow> state option" where
  "swap_ptr s this other =
     (case objs s this of
        None \<Rightarrow> None
      | Some a \<Rightarrow>
         (case objs s other of
            None \<Rightarrow> None
          | Some b \<Rightarrow>
              Some (s\<lparr>objs := (objs s)(this \<mapsto> a\<lparr>ptr := ptr b\<rparr>,
                                          other \<mapsto> b\<lparr>ptr := ptr a\<rparr>)\<rparr>)))"

definition swap_count :: "state \<Rightarrow> addr \<Rightarrow> addr \<Rightarrow> state option" where
  "swap_count s this other =
     (case objs s this of
        None \<Rightarrow> None
      | Some a \<Rightarrow>
         (case objs s other of
            None \<Rightarrow> None
          | Some b \<Rightarrow>
              Some (s\<lparr>objs := (objs s)(this \<mapsto> a\<lparr>count := count b\<rparr>,
                                          other \<mapsto> b\<lparr>count := count a\<rparr>)\<rparr>)))"

definition swap_deleter :: "state \<Rightarrow> addr \<Rightarrow> addr \<Rightarrow> state option" where
  "swap_deleter s this other =
     (case objs s this of
        None \<Rightarrow> None
      | Some a \<Rightarrow>
         (case objs s other of
            None \<Rightarrow> None
          | Some b \<Rightarrow>
              Some (s\<lparr>objs := (objs s)(this \<mapsto> a\<lparr>deleter := deleter b\<rparr>,
                                          other \<mapsto> b\<lparr>deleter := deleter a\<rparr>)\<rparr>)))"

definition SharedPtr_swap :: "state \<Rightarrow> addr \<Rightarrow> addr \<Rightarrow> state option" where
  "SharedPtr_swap s this other =
     (case swap_ptr s this other of
        None \<Rightarrow> None
      | Some s1 \<Rightarrow>
         (case swap_count s1 this other of
            None \<Rightarrow> None
          | Some s2 \<Rightarrow> swap_deleter s2 this other))"

subsection \<open>Sequences of operations\<close>

text \<open>
  One constructor per operation of the class. \<open>Bind\<close> and \<open>Reset\<close> carry the address that
  \<open>new\<close> returns for the counter cell. \<open>Assign a b\<close> is \<open>a = b\<close>; both must be alive.
\<close>

datatype op =
    Default addr
  | Bind addr "addr option" deleter_fn addr
  | Copy addr addr
  | Assign addr addr
  | Reset addr "addr option" deleter_fn addr
  | Swap addr addr
  | Destroy addr

fun step :: "state \<Rightarrow> op \<Rightarrow> state option" where
  "step s (Default h) = SharedPtr_default s h"
| "step s (Bind h p d c) = SharedPtr_bind s h p d c"
| "step s (Copy h src) = SharedPtr_copy s h src"
| "step s (Assign h src) =
     (if objs s h = None \<or> objs s src = None then None else operator_assign s h src)"
| "step s (Reset h p d c) = reset s h p d c"
| "step s (Swap a b) = SharedPtr_swap s a b"
| "step s (Destroy h) = SharedPtr_dtor s h"

fun run :: "state \<Rightarrow> op list \<Rightarrow> state option" where
  "run s [] = Some s"
| "run s (x # xs) = (case step s x of None \<Rightarrow> None | Some s' \<Rightarrow> run s' xs)"

subsection \<open>Specification notions\<close>

text \<open>The live handles that reference counter cell \<open>c\<close>.\<close>

definition owners :: "state \<Rightarrow> addr \<Rightarrow> addr set" where
  "owners s c = {h. \<exists>x. objs s h = Some x \<and> count x = Some c}"

definition INT_MAX :: nat where
  "INT_MAX = 2 ^ 31 - 1"

text \<open>
  The state invariant: finitely many live handles; no handle references a freed cell;
  every allocated cell holds the number of live handles that reference it, and that
  number is not zero.
\<close>

definition refcount_inv :: "state \<Rightarrow> bool" where
  "refcount_inv s \<longleftrightarrow>
     finite (dom (objs s)) \<and>
     (\<forall>h x c. objs s h = Some x \<longrightarrow> count x = Some c \<longrightarrow> cells s c \<noteq> None) \<and>
     (\<forall>c v. cells s c = Some v \<longrightarrow> sint v = int (card (owners s c)) \<and> owners s c \<noteq> {})"

text \<open>
  What an observer sees of the counters: every cell referenced by a live handle is
  allocated, its value read as an \<open>int\<close> is the number of live handles referencing it,
  and it is positive.
\<close>

definition counts_ok :: "state \<Rightarrow> bool" where
  "counts_ok s \<longleftrightarrow>
     (\<forall>h x c. objs s h = Some x \<longrightarrow> count x = Some c \<longrightarrow>
        (\<exists>v. cells s c = Some v \<and> sint v = int (card (owners s c)) \<and> 0 < sint v))"

text \<open>
  The counters can hold their counts: no cell has more than \<open>INT_MAX\<close> live handles on
  it. Without this the \<open>int\<close> counter wraps and cannot equal the number of handles.
\<close>

definition fits :: "state \<Rightarrow> bool" where
  "fits s \<longleftrightarrow> (\<forall>c. card (owners s c) \<le> INT_MAX)"

text \<open>The data-model sentence: the cell reference is null iff the resource pointer is.\<close>

definition null_iff :: "state \<Rightarrow> bool" where
  "null_iff s \<longleftrightarrow> (\<forall>h x. objs s h = Some x \<longrightarrow> (count x = None \<longleftrightarrow> ptr x = None))"

fun binds_null :: "op \<Rightarrow> bool" where
  "binds_null (Bind h p d c) = (p = None)"
| "binds_null (Reset h p d c) = (p = None)"
| "binds_null _ = False"

text \<open>
  The calls a well-behaved caller may make in state \<open>s\<close>: constructors run on an address
  that holds no live object, every other member function on live objects, and \<open>new\<close>
  returns an address that is free when it is called (for \<open>reset\<close>, after the handle
  has released its previous share: the cell just freed may be handed out again).
\<close>

fun legal :: "state \<Rightarrow> op \<Rightarrow> bool" where
  "legal s (Default h) = (objs s h = None)"
| "legal s (Bind h p d c) = (objs s h = None \<and> cells s c = None)"
| "legal s (Copy h src) = (objs s h = None \<and> objs s src \<noteq> None)"
| "legal s (Assign h src) = (objs s h \<noteq> None \<and> objs s src \<noteq> None)"
| "legal s (Reset h p d c) =
     (objs s h \<noteq> None \<and>
      (cells s c = None \<or>
       (map_option count (objs s h) = Some (Some c) \<and> cells s c = Some 1)))"
| "legal s (Swap a b) = (objs s a \<noteq> None \<and> objs s b \<noteq> None)"
| "legal s (Destroy h) = (objs s h \<noteq> None)"

subsection \<open>Example states\<close>

text \<open>
  Exclusive handles: one live handle owning resource 10; two live handles owning
  resources 10 and 20.
\<close>

definition u_one :: "nat ustate" where
  "u_one = \<lparr>uobjs = [1 \<mapsto> \<lparr>uptr = Some 10, udeleter = 0\<rparr>], ulog = []\<rparr>"

definition u_two :: "nat ustate" where
  "u_two = \<lparr>uobjs = [1 \<mapsto> \<lparr>uptr = Some 10, udeleter = 0\<rparr>,
                     2 \<mapsto> \<lparr>uptr = Some 20, udeleter = 0\<rparr>], ulog = []\<rparr>"

text \<open>
  Shared handles: a handle bound to resource 7 next to an empty one; a handle just bound
  to resource 5 with a user deleter; \<open>SharedPtr<int> h(new int(7)); h.reset();\<close> and the
  scenario of the repository's own test (bind, copy, assign into an empty handle,
  reset to a new resource) followed by one destruction.
\<close>

definition s_two :: state where
  "s_two = \<lparr>objs = [1 \<mapsto> \<lparr>ptr = Some 7, count = Some 100, deleter = UserDeleter 3\<rparr>,
                    2 \<mapsto> \<lparr>ptr = None, count = None, deleter = defaultDeleter\<rparr>],
            cells = [100 \<mapsto> 1], trace = [New 100]\<rparr>"

definition bound_once :: state where
  "bound_once =
     \<lparr>objs = [1 \<mapsto> \<lparr>ptr = Some 5, count = Some 100, deleter = UserDeleter 7\<rparr>],
      cells = [100 \<mapsto> 1], trace = [New 100]\<rparr>"

definition reset_example :: "op list" where
  "reset_example = [Bind 1 (Some 7) defaultDeleter 100, Reset 1 None defaultDeleter 101]"

definition example_ops :: "op list" where
  "example_ops =
     [Bind 1 (Some 5) defaultDeleter 100, Copy 2 1, Default 3, Assign 3 1,
      Reset 1 (Some 10) defaultDeleter 101, Destroy 2]"

section \<open>Properties of the exclusive handle\<close>

text \<open>The example states are what the constructors build.\<close>

lemma u_one_built:
  "UniquePtr_ctor \<lparr>uobjs = Map.empty, ulog = []\<rparr> 1 (Some 10) (0::nat) = Some u_one"
  by (simp add: UniquePtr_ctor_def u_one_def)

lemma u_two_built: "UniquePtr_ctor u_one 2 (Some 20) 0 = Some u_two"
  by (simp add: UniquePtr_ctor_def u_one_def u_two_def fun_upd_twist)

lemma UniquePtr_swap_eq:
  "uobjs s this = Some a \<Longrightarrow> uobjs s other = Some b \<Longrightarrow>
   UniquePtr_swap s this other = Some (s\<lparr>uobjs := (uobjs s)(this \<mapsto> b, other \<mapsto> a)\<rparr>)"
  by (cases a, cases b, cases "this = other")
     (auto simp: UniquePtr_swap_def uswap_ptr_def uswap_deleter_def fun_upd_twist)

text \<open>
  Claim C8. For every exclusive handle that owns a resource \<open>p\<close>, \<open>release()\<close> returns
  \<open>p\<close> and leaves the handle empty, and the handle never calls its deleter on \<open>p\<close>: the
  log of deleter calls is the same after \<open>release()\<close>, and still the same after the
  handle's destructor has run.
\<close>

theorem unique_release_relinquishes:
  assumes "uobjs s this = Some u" and "uptr u = Some p"
  shows "\<exists>s1 s2. UniquePtr_release s this = Some (Some p, s1)
           \<and> UniquePtr_get s1 this = Some None \<and> UniquePtr_bool s1 this = Some False
           \<and> ulog s1 = ulog s
           \<and> UniquePtr_dtor s1 this = Some s2 \<and> ulog s2 = ulog s"
  using assms
  by (simp add: UniquePtr_release_def UniquePtr_get_def UniquePtr_bool_def
        UniquePtr_dtor_def UniquePtr_reset_def)

theorem unique_release_relinquishes_witness:
  "uobjs u_one 1 = Some \<lparr>uptr = Some 10, udeleter = 0\<rparr> \<and>
   (\<exists>s1 s2. UniquePtr_release u_one 1 = Some (Some 10, s1)
           \<and> UniquePtr_get s1 1 = Some None \<and> UniquePtr_bool s1 1 = Some False
           \<and> ulog s1 = []
           \<and> UniquePtr_dtor s1 1 = Some s2 \<and> ulog s2 = [])"
  using unique_release_relinquishes [of u_one 1 "\<lparr>uptr = Some 10, udeleter = 0\<rparr>" 10]
  by (simp add: u_one_def)

text \<open>
  Claim C5, as stated, fails for move assignment. With \<open>u1\<close> owning resource 10 and
  \<open>u2\<close> owning resource 20, \<open>u2 = std::move(u1)\<close> swaps the two handles: afterwards
  the source \<open>u1\<close> owns resource 20 and is not empty.
\<close>

theorem move_assign_source_not_empty:
  "UniquePtr_move_assign u_two 2 1 \<noteq> None \<and>
   UniquePtr_get (the (UniquePtr_move_assign u_two 2 1)) 1 = Some (Some 20) \<and>
   UniquePtr_bool (the (UniquePtr_move_assign u_two 2 1)) 1 = Some True"
  by (simp add: u_two_def UniquePtr_move_assign_def UniquePtr_swap_def uswap_ptr_def
        uswap_deleter_def UniquePtr_get_def UniquePtr_bool_def)

text \<open>
  Claim C5, amended. Move construction leaves the source empty and the new handle
  owning the resource the source owned, and calls no deleter. Move assignment is a
  swap: the target owns what the source owned, the source holds what the target held
  (so it is empty afterwards exactly when the target was empty before), and no
  deleter is called.
\<close>

theorem unique_move:
  assumes "uobjs s other = Some src"
  shows "(uobjs s this = None \<longrightarrow>
            (\<exists>s'. UniquePtr_move_ctor s this other = Some s'
               \<and> UniquePtr_get s' other = Some None
               \<and> UniquePtr_get s' this = Some (uptr src)
               \<and> ulog s' = ulog s))
       \<and> (\<forall>tgt. uobjs s this = Some tgt \<longrightarrow>
            (\<exists>s'. UniquePtr_move_assign s this other = Some s'
               \<and> uobjs s' this = Some src
               \<and> uobjs s' other = Some tgt
               \<and> UniquePtr_bool s' other = Some (uptr tgt \<noteq> None)
               \<and> ulog s' = ulog s))"
proof (intro conjI impI allI)
  assume "uobjs s this = None"
  with assms have "this \<noteq> other" by auto
  with assms \<open>uobjs s this = None\<close>
  show "\<exists>s'. UniquePtr_move_ctor s this other = Some s'
               \<and> UniquePtr_get s' other = Some None
               \<and> UniquePtr_get s' this = Some (uptr src)
               \<and> ulog s' = ulog s"
    by (simp add: UniquePtr_move_ctor_def UniquePtr_get_def)
next
  fix tgt assume t: "uobjs s this = Some tgt"
  show "\<exists>s'. UniquePtr_move_assign s this other = Some s'
               \<and> uobjs s' this = Some src
               \<and> uobjs s' other = Some tgt
               \<and> UniquePtr_bool s' other = Some (uptr tgt \<noteq> None)
               \<and> ulog s' = ulog s"
    using assms t
    by (auto simp: UniquePtr_move_assign_def UniquePtr_swap_eq UniquePtr_bool_def)
qed

theorem unique_move_witness:
  "uobjs u_two 1 = Some \<lparr>uptr = Some 10, udeleter = 0\<rparr> \<and> uobjs u_two 3 = None \<and>
   uobjs u_two 2 = Some \<lparr>uptr = Some 20, udeleter = 0\<rparr> \<and>
   (\<exists>s'. UniquePtr_move_ctor u_two 3 1 = Some s'
       \<and> UniquePtr_get s' 1 = Some None \<and> UniquePtr_get s' 3 = Some (Some 10)) \<and>
   (\<exists>s'. UniquePtr_move_assign u_two 2 1 = Some s'
       \<and> UniquePtr_get s' 2 = Some (Some 10) \<and> UniquePtr_get s' 1 = Some (Some 20))"
  using unique_move [of u_two 1 "\<lparr>uptr = Some 10, udeleter = 0\<rparr>" 3]
        unique_move [of u_two 1 "\<lparr>uptr = Some 10, udeleter = 0\<rparr>" 2]
  by (auto simp: u_two_def UniquePtr_get_def)

section \<open>The shared handle: what the member functions do\<close>

lemmas op_defs = SharedPtr_default_def SharedPtr_bind_def SharedPtr_copy_def SharedPtr_dtor_def
  operator_assign_def reset_def new_atomic_int_def acquire_def release_def

lemma s_two_run: "run init [Bind 1 (Some 7) (UserDeleter 3) 100, Default 2] = Some s_two"
  by (simp add: init_def s_two_def op_defs)

lemma bound_once_run: "run init [Bind 1 (Some 5) (UserDeleter 7) 100] = Some bound_once"
  by (simp add: init_def bound_once_def SharedPtr_bind_def new_atomic_int_def)

text \<open>
  The assertions of the repository's own test (\<open>main\<close> in src/shared\_ptr/main.cpp) on
  \<open>use_count()\<close>: 1 after construction, 2 after the copy, 3 after the assignment, and
  after \<open>ptr1.reset(new int(10))\<close> 1 for \<open>ptr1\<close> and 2 for \<open>ptr2\<close>.
\<close>

lemma main_asserts:
  "use_count (the (run init (take 1 example_ops))) 1 = Some 1"
  "use_count (the (run init (take 2 example_ops))) 1 = Some 2"
  "use_count (the (run init (take 2 example_ops))) 2 = Some 2"
  "use_count (the (run init (take 4 example_ops))) 1 = Some 3"
  "use_count (the (run init (take 4 example_ops))) 2 = Some 3"
  "use_count (the (run init (take 4 example_ops))) 3 = Some 3"
  "use_count (the (run init (take 5 example_ops))) 1 = Some 1"
  "use_count (the (run init (take 5 example_ops))) 2 = Some 2"
  "get (the (run init (take 5 example_ops))) 1 = Some (Some 10)"
  "get (the (run init (take 5 example_ops))) 2 = Some (Some 5)"
  by (simp_all add: example_ops_def init_def op_defs use_count_def get_def)

lemma SharedPtr_swap_eq:
  "objs s a = Some xa \<Longrightarrow> objs s b = Some xb \<Longrightarrow>
   SharedPtr_swap s a b = Some (s\<lparr>objs := (objs s)(a \<mapsto> xb, b \<mapsto> xa)\<rparr>)"
  by (cases xa, cases xb, cases "a = b")
     (auto simp: SharedPtr_swap_def swap_ptr_def swap_count_def swap_deleter_def fun_upd_twist)

lemma SharedPtr_eta: "\<lparr>ptr = ptr x, count = count x, deleter = deleter x\<rparr> = x"
  by (cases x) simp

lemma release_objs: "release s h = Some s1 \<Longrightarrow> objs s1 = objs s"
  by (auto simp: release_def Let_def split: option.splits if_splits)

lemma release_live: "release s h = Some s1 \<Longrightarrow> \<exists>x. objs s h = Some x"
  by (cases "objs s h") (simp_all add: release_def)

lemma release_no_cell:
  "objs s h = Some x \<Longrightarrow> count x = None \<Longrightarrow> release s h = Some s"
  by (simp add: release_def)

lemma release_last:
  "objs s h = Some x \<Longrightarrow> count x = Some c \<Longrightarrow> cells s c = Some 1 \<Longrightarrow>
   release s h = Some (s\<lparr>cells := (cells s)(c := None),
                          trace := trace s @ [Invoke (deleter x) (ptr x), Delete c]\<rparr>)"
  by (simp add: release_def)

lemma release_shared:
  "objs s h = Some x \<Longrightarrow> count x = Some c \<Longrightarrow> cells s c = Some v \<Longrightarrow> v \<noteq> 1 \<Longrightarrow>
   release s h = Some (s\<lparr>cells := (cells s)(c \<mapsto> v - 1)\<rparr>)"
  by (simp add: release_def)

lemma release_dangling:
  "objs s h = Some x \<Longrightarrow> count x = Some c \<Longrightarrow> cells s c = None \<Longrightarrow> release s h = None"
  by (simp add: release_def)

lemma release_result:
  assumes "release s h = Some s1" and "objs s h = Some x"
  shows "objs s1 = objs s \<and>
          (case count x of
             None \<Rightarrow> cells s1 = cells s \<and> trace s1 = trace s
           | Some c \<Rightarrow>
              (\<exists>v. cells s c = Some v \<and>
                 (if v = 1
                  then cells s1 = (cells s)(c := None) \<and>
                       trace s1 = trace s @ [Invoke (deleter x) (ptr x), Delete c]
                  else cells s1 = (cells s)(c \<mapsto> v - 1) \<and> trace s1 = trace s)))"
proof (cases "count x")
  case None
  with assms show ?thesis by (simp add: release_no_cell)
next
  case (Some c)
  show ?thesis
  proof (cases "cells s c")
    case None
    with assms Some show ?thesis by (simp add: release_dangling)
  next
    case (Some v)
    with assms \<open>count x = Some c\<close> show ?thesis
      by (cases "v = 1") (auto simp: release_last release_shared)
  qed
qed

lemma acquire_objs:
  "acquire s h src = Some s' \<Longrightarrow>
   \<exists>x. objs s src = Some x \<and>
       objs s' = (objs s)(h \<mapsto> \<lparr>ptr = ptr x, count = count x, deleter = deleter x\<rparr>)"
  by (auto simp: acquire_def Let_def split: option.splits if_splits)

lemma acquire_live: "acquire s h src = Some s' \<Longrightarrow> \<exists>y. objs s src = Some y"
  by (cases "objs s src") (simp_all add: acquire_def)

lemma acquire_result:
  assumes "acquire s h src = Some s'" and "objs s src = Some y"
  shows "objs s' = (objs s)(h \<mapsto> \<lparr>ptr = ptr y, count = count y, deleter = deleter y\<rparr>) \<and>
         trace s' = trace s \<and>
         (case count y of
            None \<Rightarrow> cells s' = cells s
          | Some c \<Rightarrow> (\<exists>v. cells s c = Some v \<and> cells s' = (cells s)(c \<mapsto> v + 1)))"
proof (cases "count y")
  case None
  with assms show ?thesis by (auto simp: acquire_def)
next
  case (Some c)
  with assms show ?thesis
    by (cases "cells s c") (auto simp: acquire_def Let_def)
qed

lemma swap_result:
  assumes "SharedPtr_swap s a b = Some s'"
  shows "\<exists>xa xb. objs s a = Some xa \<and> objs s b = Some xb \<and>
           s' = s\<lparr>objs := (objs s)(a \<mapsto> xb, b \<mapsto> xa)\<rparr>"
proof (cases "objs s a")
  case None
  with assms show ?thesis by (simp add: SharedPtr_swap_def swap_ptr_def)
next
  case (Some xa)
  show ?thesis
  proof (cases "objs s b")
    case None
    with assms Some show ?thesis by (simp add: SharedPtr_swap_def swap_ptr_def)
  next
    case (Some xb)
    with assms \<open>objs s a = Some xa\<close> show ?thesis by (simp add: SharedPtr_swap_eq)
  qed
qed

section \<open>Properties of single operations\<close>

text \<open>
  What \<open>reset\<close> does, for any new pointer, null or not: after the release of the handle's
  previous share it allocates a cell holding 1 and stores the pointer, the cell and
  the deleter.
\<close>

lemma reset_result:
  assumes "release s h = Some s1" and "cells s1 c = None"
  shows "reset s h p d c =
           Some (s1\<lparr>cells := (cells s1)(c \<mapsto> 1), trace := trace s1 @ [New c],
                    objs := (objs s1)(h \<mapsto> \<lparr>ptr = p, count = Some c, deleter = d\<rparr>)\<rparr>)"
  using assms by (simp add: reset_def new_atomic_int_def)

text \<open>
  The other ways to a handle that owns nothing, the default constructor and the
  assignment from an empty handle, leave no cell reference and \<open>use_count()\<close> 0: the
  state that \<open>use_count\<close>, \<open>acquire\<close> and \<open>release\<close> test \<open>count_\<close> for.
\<close>

lemma empty_paths:
  "objs (the (run init [Default 1])) 1 =
     Some \<lparr>ptr = None, count = None, deleter = defaultDeleter\<rparr>"
  "use_count (the (run init [Default 1])) 1 = Some 0"
  "objs (the (run init [Bind 1 (Some 7) defaultDeleter 100, Default 2, Assign 1 2])) 1 =
     Some \<lparr>ptr = None, count = None, deleter = defaultDeleter\<rparr>"
  "use_count (the (run init [Bind 1 (Some 7) defaultDeleter 100, Default 2, Assign 1 2])) 1 =
     Some 0"
  by (simp_all add: init_def op_defs use_count_def)

text \<open>
  Claim C3 (\<open>reset()\<close> with no arguments leaves the handle empty: boolean conversion
  false, \<open>use_count()\<close> 0, no counter-cell reference) is what the code's other paths to
  an empty handle do, and \<open>reset\<close> misses it. After
  \<open>SharedPtr<int> h(new int(7)); h.reset();\<close> the old resource has been cleaned up and
  its cell freed, the resource pointer is null and the boolean conversion is false,
  but \<open>reset\<close> has allocated a new cell: the handle references cell 101 and
  \<open>use_count()\<close> returns 1.
\<close>

theorem reset_keeps_a_cell:
  "run init reset_example \<noteq> None \<and>
   objs (the (run init reset_example)) 1 =
     Some \<lparr>ptr = None, count = Some 101, deleter = defaultDeleter\<rparr> \<and>
   operator_bool (the (run init reset_example)) 1 = Some False \<and>
   use_count (the (run init reset_example)) 1 = Some 1 \<and>
   cells (the (run init reset_example)) 101 = Some 1 \<and>
   trace (the (run init reset_example)) =
     [New 100, Invoke defaultDeleter (Some 7), Delete 100, New 101]"
  by (simp add: reset_example_def init_def op_defs use_count_def operator_bool_def)

text \<open>
  Claim C6. For every pair of live shared handles \<open>a\<close> and \<open>b\<close> (empty or not, and
  also when they are the same object), \<open>swap\<close> exchanges their three members, leaves
  every other handle alone, changes no counter cell (none is written, allocated or
  freed) and adds nothing to the trace (no cleanup call, no \<open>new\<close>, no \<open>delete\<close>).
\<close>

theorem swap_exchanges:
  assumes "objs s a = Some xa" and "objs s b = Some xb"
  shows "\<exists>s'. SharedPtr_swap s a b = Some s'
           \<and> objs s' a = Some xb \<and> objs s' b = Some xa
           \<and> (\<forall>h. h \<noteq> a \<and> h \<noteq> b \<longrightarrow> objs s' h = objs s h)
           \<and> cells s' = cells s
           \<and> trace s' = trace s"
  using assms by (auto simp: SharedPtr_swap_eq)

theorem swap_exchanges_witness:
  "objs s_two 1 = Some \<lparr>ptr = Some 7, count = Some 100, deleter = UserDeleter 3\<rparr> \<and>
   objs s_two 2 = Some \<lparr>ptr = None, count = None, deleter = defaultDeleter\<rparr> \<and>
   (\<exists>s'. SharedPtr_swap s_two 1 2 = Some s'
      \<and> objs s' 1 = Some \<lparr>ptr = None, count = None, deleter = defaultDeleter\<rparr>
      \<and> objs s' 2 = Some \<lparr>ptr = Some 7, count = Some 100, deleter = UserDeleter 3\<rparr>
      \<and> cells s' = cells s_two \<and> trace s' = trace s_two)"
  using swap_exchanges [of s_two 1 "\<lparr>ptr = Some 7, count = Some 100, deleter = UserDeleter 3\<rparr>"
          2 "\<lparr>ptr = None, count = None, deleter = defaultDeleter\<rparr>"]
  by (auto simp: s_two_def)

text \<open>
  Claim C7. For every live shared handle \<open>h\<close>, the self-assignment \<open>h = h\<close> returns the
  state it started from: members of \<open>h\<close>, counter cells and trace are all unchanged.
\<close>

theorem self_assignment_noop:
  assumes "objs s h \<noteq> None"
  shows "step s (Assign h h) = Some s \<and> operator_assign s h h = Some s"
  using assms by (simp add: operator_assign_def)

theorem self_assignment_noop_witness:
  "objs s_two 1 \<noteq> None \<and> step s_two (Assign 1 1) = Some s_two \<and>
   operator_assign s_two 1 1 = Some s_two"
  using self_assignment_noop [of s_two 1] by (simp add: s_two_def)

text \<open>
  Claim C9. Let \<open>src\<close> be an empty shared handle (null resource pointer, null cell
  reference). Copy-constructing \<open>h\<close> from it gives an empty \<open>h\<close> with \<open>use_count()\<close> 0 and
  changes neither the counter cells nor the trace. Copy-assigning it into a handle
  \<open>h\<close> whose release path is defined gives an empty \<open>h\<close> with \<open>use_count()\<close> 0; apart
  from the release of what \<open>h\<close> held before, cells and trace are unchanged, so every
  cell allocated afterwards was allocated before with the same value or that value
  plus one, and the trace gains no \<open>New\<close> event.
\<close>

theorem copy_from_empty:
  assumes "objs s src = Some x" and "ptr x = None" and "count x = None"
  shows "(objs s h = None \<longrightarrow>
            (\<exists>s'. SharedPtr_copy s h src = Some s'
               \<and> objs s' h = Some \<lparr>ptr = None, count = None, deleter = deleter x\<rparr>
               \<and> use_count s' h = Some 0
               \<and> cells s' = cells s \<and> trace s' = trace s))
       \<and> (\<forall>s1. release s h = Some s1 \<longrightarrow>
            (\<exists>s'. operator_assign s h src = Some s'
               \<and> get s' h = Some None
               \<and> map_option count (objs s' h) = Some None
               \<and> use_count s' h = Some 0
               \<and> (h \<noteq> src \<longrightarrow> cells s' = cells s1 \<and> trace s' = trace s1)
               \<and> (\<forall>c v'. cells s' c = Some v' \<longrightarrow>
                     (\<exists>v. cells s c = Some v \<and> (v' = v \<or> v' = v - 1)))
               \<and> (\<exists>es. trace s' = trace s @ es \<and> (\<forall>c. New c \<notin> set es))))"
proof (intro conjI impI allI)
  assume "objs s h = None"
  with assms show "\<exists>s'. SharedPtr_copy s h src = Some s'
               \<and> objs s' h = Some \<lparr>ptr = None, count = None, deleter = deleter x\<rparr>
               \<and> use_count s' h = Some 0
               \<and> cells s' = cells s \<and> trace s' = trace s"
    by (simp add: SharedPtr_copy_def acquire_def use_count_def)
next
  fix s1 assume r: "release s h = Some s1"
  show "\<exists>s'. operator_assign s h src = Some s'
               \<and> get s' h = Some None
               \<and> map_option count (objs s' h) = Some None
               \<and> use_count s' h = Some 0
               \<and> (h \<noteq> src \<longrightarrow> cells s' = cells s1 \<and> trace s' = trace s1)
               \<and> (\<forall>c v'. cells s' c = Some v' \<longrightarrow>
                     (\<exists>v. cells s c = Some v \<and> (v' = v \<or> v' = v - 1)))
               \<and> (\<exists>es. trace s' = trace s @ es \<and> (\<forall>c. New c \<notin> set es))"
  proof (cases "h = src")
    case True
    with assms show ?thesis
      by (simp add: operator_assign_def get_def use_count_def)
  next
    case False
    with assms r show ?thesis
      by (auto simp: operator_assign_def get_def use_count_def acquire_def release_def Let_def
               split: option.splits if_splits)
  qed
qed

theorem copy_from_empty_witness:
  "objs s_two 2 = Some \<lparr>ptr = None, count = None, deleter = defaultDeleter\<rparr> \<and>
   objs s_two 3 = None \<and> release s_two 1 \<noteq> None \<and>
   (\<exists>s'. SharedPtr_copy s_two 3 2 = Some s'
      \<and> objs s' 3 = Some \<lparr>ptr = None, count = None, deleter = defaultDeleter\<rparr>
      \<and> use_count s' 3 = Some 0 \<and> cells s' = cells s_two \<and> trace s' = trace s_two) \<and>
   (\<exists>s'. operator_assign s_two 1 2 = Some s'
      \<and> get s' 1 = Some None \<and> map_option count (objs s' 1) = Some None
      \<and> use_count s' 1 = Some 0)"
  using copy_from_empty [of s_two 2 "\<lparr>ptr = None, count = None, deleter = defaultDeleter\<rparr>" 3]
        copy_from_empty [of s_two 2 "\<lparr>ptr = None, count = None, deleter = defaultDeleter\<rparr>" 1]
  by (auto simp: s_two_def release_def)

text \<open>
  Claim C10. Bound construction from a null resource pointer, at a free object address
  and with \<open>new\<close> returning the free cell \<open>c\<close>: the cell is allocated with value 1,
  \<open>use_count()\<close> returns 1 and the boolean conversion is false. Destroying the handle
  calls the stored deleter once, with the null pointer, and then frees the cell.
\<close>

theorem bind_null:
  assumes "objs s h = None" and "cells s c = None"
  shows "\<exists>s1 s2. SharedPtr_bind s h None d c = Some s1
           \<and> cells s1 c = Some 1
           \<and> use_count s1 h = Some 1
           \<and> operator_bool s1 h = Some False
           \<and> SharedPtr_dtor s1 h = Some s2
           \<and> trace s2 = trace s @ [New c, Invoke d None, Delete c]
           \<and> cells s2 c = None \<and> objs s2 h = None"
  using assms
  by (simp add: op_defs use_count_def operator_bool_def)

theorem bind_null_witness:
  "objs init 1 = None \<and> cells init 100 = None \<and>
   (\<exists>s1 s2. SharedPtr_bind init 1 None (UserDeleter 3) 100 = Some s1
           \<and> cells s1 100 = Some 1
           \<and> use_count s1 1 = Some 1
           \<and> operator_bool s1 1 = Some False
           \<and> SharedPtr_dtor s1 1 = Some s2
           \<and> trace s2 = [New 100, Invoke (UserDeleter 3) None, Delete 100]
           \<and> cells s2 100 = None \<and> objs s2 1 = None)"
  using bind_null [of init 1 100 "UserDeleter 3"] by (simp add: init_def)

text \<open>
  Claim C4, as stated, fails. Bound construction from a null pointer allocates a counter
  cell like any other bound construction: after \<open>SharedPtr<T> a; SharedPtr<T> b(nullptr);\<close>
  handle \<open>b\<close> has a null resource pointer and a non-null counter-cell reference,
  although the state before satisfied the invariant.
\<close>

theorem null_iff_broken_by_bind:
  "run init [Default 1] \<noteq> None \<and> null_iff (the (run init [Default 1])) \<and>
   run init [Default 1, Bind 2 None defaultDeleter 100] \<noteq> None \<and>
   objs (the (run init [Default 1, Bind 2 None defaultDeleter 100])) 2 =
     Some \<lparr>ptr = None, count = Some 100, deleter = defaultDeleter\<rparr> \<and>
   \<not> null_iff (the (run init [Default 1, Bind 2 None defaultDeleter 100]))"
proof -
  let ?r = "\<lparr>ptr = None, count = Some 100, deleter = defaultDeleter\<rparr>"
  let ?t = "the (run init [Default 1, Bind 2 None defaultDeleter 100])"
  have d: "run init [Default 1] \<noteq> None \<and> null_iff (the (run init [Default 1]))"
    by (simp add: init_def op_defs null_iff_def)
  have r: "run init [Default 1, Bind 2 None defaultDeleter 100] \<noteq> None"
    by (simp add: init_def op_defs)
  have o: "objs ?t 2 = Some ?r" by (simp add: init_def op_defs)
  have "\<not> null_iff ?t"
  proof
    assume "null_iff ?t"
    with o have "(count ?r = None) = (ptr ?r = None)" unfolding null_iff_def by blast
    then show False by simp
  qed
  with d r o show ?thesis by blast
qed

lemma null_iffD: "null_iff s \<Longrightarrow> objs s h = Some x \<Longrightarrow> ptr x = None \<Longrightarrow> count x = None"
  by (simp add: null_iff_def)

lemma null_iff_upd:
  "null_iff s \<Longrightarrow> objs s' = (objs s)(h \<mapsto> x) \<Longrightarrow> (count x = None) = (ptr x = None) \<Longrightarrow> null_iff s'"
  by (simp add: null_iff_def)

lemma null_iff_kept:
  assumes "null_iff s" and "step s x = Some s'" and "\<not> binds_null x"
  shows "null_iff s'"
proof (cases x)
  case (Default h)
  with assms show ?thesis
    by (auto simp: SharedPtr_default_def split: if_splits intro: null_iff_upd)
next
  case (Bind h p d c)
  with assms show ?thesis
    by (auto simp: SharedPtr_bind_def new_atomic_int_def null_iff_def split: if_splits)
next
  case (Copy h src)
  with assms have "acquire s h src = Some s'"
    by (simp add: SharedPtr_copy_def split: if_splits)
  then obtain y where "objs s src = Some y"
    "objs s' = (objs s)(h \<mapsto> \<lparr>ptr = ptr y, count = count y, deleter = deleter y\<rparr>)"
    using acquire_objs by blast
  with assms(1) show ?thesis
    by (auto simp: null_iff_def)
next
  case (Assign h src)
  show ?thesis
  proof (cases "h = src")
    case True
    with Assign assms show ?thesis by (simp add: operator_assign_def split: if_splits)
  next
    case False
    with Assign assms obtain s1 where r: "release s h = Some s1" and a: "acquire s1 h src = Some s'"
      by (auto simp: operator_assign_def split: if_splits option.splits)
    from a obtain y where "objs s1 src = Some y"
      "objs s' = (objs s1)(h \<mapsto> \<lparr>ptr = ptr y, count = count y, deleter = deleter y\<rparr>)"
      using acquire_objs by blast
    with assms(1) release_objs[OF r] show ?thesis
      by (auto simp: null_iff_def)
  qed
next
  case (Reset h p d c)
  with assms obtain s1 where r: "release s h = Some s1"
    and o: "objs s' = (objs s1)(h \<mapsto> \<lparr>ptr = p, count = Some c, deleter = d\<rparr>)" and "p \<noteq> None"
    by (auto simp: reset_def new_atomic_int_def split: option.splits if_splits)
  with assms(1) release_objs[OF r] show ?thesis
    by (auto simp: null_iff_def)
next
  case (Swap a b)
  with assms obtain xa xb where "objs s a = Some xa" "objs s b = Some xb"
    by (auto simp: SharedPtr_swap_def swap_ptr_def split: option.splits)
  with Swap assms show ?thesis
    by (auto simp: SharedPtr_swap_eq null_iff_def split: if_splits)
next
  case (Destroy h)
  with assms obtain s1 where r: "release s h = Some s1" and o: "objs s' = (objs s1)(h := None)"
    by (auto simp: SharedPtr_dtor_def split: option.splits)
  with assms(1) release_objs[OF r] show ?thesis
    by (auto simp: null_iff_def)
qed

lemma bind_result:
  assumes "step s (Bind h p d c) = Some s'"
  shows "objs s' = (objs s)(h \<mapsto> \<lparr>ptr = p, count = Some c, deleter = d\<rparr>)"
  using assms by (auto simp: SharedPtr_bind_def new_atomic_int_def split: if_splits)

text \<open>
  Claim C4, amended. Starting from a state in which every live handle has a null cell
  reference iff its resource pointer is null, empty construction, copy, copy
  assignment, swap and destruction lead to such a state again, and so do bound
  construction and \<open>reset\<close> when given a non-null resource pointer. Bound construction
  from a null pointer leaves the new handle with a null resource pointer and a
  non-null counter-cell reference, and every other handle as it was. (Nothing is said
  of \<open>reset\<close> with a null pointer.)
\<close>

theorem null_iff_preserved:
  assumes "null_iff s" and "step s x = Some s'"
  shows "(\<not> binds_null x \<longrightarrow> null_iff s') \<and>
         (\<forall>h d c. x = Bind h None d c \<longrightarrow>
            objs s' h = Some \<lparr>ptr = None, count = Some c, deleter = d\<rparr> \<and>
            (\<forall>k. k \<noteq> h \<longrightarrow> objs s' k = objs s k))"
proof (intro conjI impI allI)
  assume "\<not> binds_null x"
  with assms show "null_iff s'" by (rule null_iff_kept)
next
  fix h d c assume "x = Bind h None d c"
  with assms(2) have "objs s' = (objs s)(h \<mapsto> \<lparr>ptr = None, count = Some c, deleter = d\<rparr>)"
    by (simp only: bind_result)
  then show "objs s' h = Some \<lparr>ptr = None, count = Some c, deleter = d\<rparr>"
    by simp
next
  fix h d c k assume "x = Bind h None d c" and "k \<noteq> h"
  with assms(2) have "objs s' = (objs s)(h \<mapsto> \<lparr>ptr = None, count = Some c, deleter = d\<rparr>)"
    by (simp only: bind_result)
  with \<open>k \<noteq> h\<close> show "objs s' k = objs s k" by simp
qed

theorem null_iff_preserved_witness:
  "null_iff init \<and> step init (Bind 1 (Some 7) defaultDeleter 100) \<noteq> None \<and>
   null_iff (the (step init (Bind 1 (Some 7) defaultDeleter 100))) \<and>
   step init (Bind 1 None (UserDeleter 3) 100) \<noteq> None \<and>
   objs (the (step init (Bind 1 None (UserDeleter 3) 100))) 1 =
     Some \<lparr>ptr = None, count = Some 100, deleter = UserDeleter 3\<rparr>"
proof -
  have n: "null_iff init" by (simp add: init_def null_iff_def)
  have a0: "step init (Bind 1 (Some 7) defaultDeleter 100) \<noteq> None"
    by (simp add: init_def SharedPtr_bind_def new_atomic_int_def)
  have b0: "step init (Bind 1 None (UserDeleter 3) 100) \<noteq> None"
    by (simp add: init_def SharedPtr_bind_def new_atomic_int_def)
  have a: "step init (Bind 1 (Some 7) defaultDeleter 100) =
             Some (the (step init (Bind 1 (Some 7) defaultDeleter 100)))"
    using a0 by (rule option.collapse [symmetric])
  have b: "step init (Bind 1 None (UserDeleter 3) 100) =
             Some (the (step init (Bind 1 None (UserDeleter 3) 100)))"
    using b0 by (rule option.collapse [symmetric])
  from null_iff_preserved [OF n a]
  have "null_iff (the (step init (Bind 1 (Some 7) defaultDeleter 100)))"
    by simp
  moreover from null_iff_preserved [OF n b]
  have "objs (the (step init (Bind 1 None (UserDeleter 3) 100))) 1 =
          Some \<lparr>ptr = None, count = Some 100, deleter = UserDeleter 3\<rparr>"
    by blast
  ultimately show ?thesis using n a0 b0 by blast
qed

section \<open>The counter equals the number of live handles\<close>

subsection \<open>The 32-bit counter\<close>

lemma sint_inc:
  "sint (v::32 word) = int n \<Longrightarrow> n < INT_MAX \<Longrightarrow> sint (v + 1) = int (Suc n)"
  by (simp add: INT_MAX_def sint_word_ariths signed_take_bit_int_eq_self)

lemma sint_dec:
  "sint (v::32 word) = int n \<Longrightarrow> 0 < n \<Longrightarrow> sint (v - 1) = int (n - 1)"
  using sint_lt [of v]
  by (simp add: sint_word_ariths signed_take_bit_int_eq_self of_nat_diff)

lemma sint_eq_1: "(sint (v::32 word) = 1) = (v = 1)"
  using word_eq_iff_signed by fastforce

subsection \<open>Owners of a cell\<close>

lemma owners_iff: "h \<in> owners s c \<longleftrightarrow> (\<exists>x. objs s h = Some x \<and> count x = Some c)"
  by (simp add: owners_def)

lemma owners_subset: "owners s c \<subseteq> dom (objs s)"
  by (auto simp: owners_def)

lemma finite_owners: "finite (dom (objs s)) \<Longrightarrow> finite (owners s c)"
  using owners_subset finite_subset by blast

lemma card_owners_le: "finite (dom (objs s)) \<Longrightarrow> card (owners s c) \<le> card (dom (objs s))"
  by (simp add: card_mono owners_subset)

lemma owners_upd:
  "objs t = (objs s)(h \<mapsto> x) \<Longrightarrow>
   owners t c = (if count x = Some c then insert h (owners s c) else owners s c - {h})"
  by (auto simp: owners_def)

lemma owners_del: "objs t = (objs s)(h := None) \<Longrightarrow> owners t c = owners s c - {h}"
  by (auto simp: owners_def)

lemma owners_same: "objs t = objs s \<Longrightarrow> owners t c = owners s c"
  by (simp add: owners_def)

lemma swap_owners:
  assumes "objs s a = Some xa" and "objs s b = Some xb"
    and "objs s' = (objs s)(a \<mapsto> xb, b \<mapsto> xa)"
  shows "owners s' c = (\<lambda>h. if h = a then b else if h = b then a else h) ` owners s c"
    (is "_ = ?f ` _")
proof (cases "a = b")
  case True
  with assms have "objs s' = objs s" by (auto simp: fun_eq_iff)
  then have "owners s' c = owners s c" by (rule owners_same)
  moreover have "?f ` owners s c = (\<lambda>h. h) ` owners s c"
    by (rule image_cong) (use True in auto)
  ultimately show ?thesis by (simp only: image_ident)
next
  case False
  have invol: "\<And>h. ?f (?f h) = h" by simp
  show ?thesis
  proof (intro set_eqI iffI)
    fix h assume "h \<in> owners s' c"
    with assms False have "?f h \<in> owners s c"
      by (auto simp: owners_iff split: if_splits)
    then have "?f (?f h) \<in> ?f ` owners s c"
      by (rule imageI)
    then show "h \<in> ?f ` owners s c" by (simp only: invol)
  next
    fix h assume "h \<in> ?f ` owners s c"
    then obtain k where "k \<in> owners s c" "h = ?f k" by blast
    with assms False show "h \<in> owners s' c"
      by (auto simp: owners_iff split: if_splits)
  qed
qed

lemma swap_card:
  assumes "objs s a = Some xa" and "objs s b = Some xb"
    and "objs s' = (objs s)(a \<mapsto> xb, b \<mapsto> xa)"
  shows "card (owners s' c) = card (owners s c)"
  unfolding swap_owners [OF assms]
  by (rule card_image) (auto simp: inj_on_def split: if_splits)

subsection \<open>The invariant\<close>

lemma invI:
  "finite (dom (objs s)) \<Longrightarrow>
   (\<And>h x c. objs s h = Some x \<Longrightarrow> count x = Some c \<Longrightarrow> cells s c \<noteq> None) \<Longrightarrow>
   (\<And>c v. cells s c = Some v \<Longrightarrow> sint v = int (card (owners s c)) \<and> owners s c \<noteq> {}) \<Longrightarrow>
   refcount_inv s"
  unfolding refcount_inv_def by blast

lemma inv_finite: "refcount_inv s \<Longrightarrow> finite (dom (objs s))"
  by (simp add: refcount_inv_def)

lemma inv_alloc: "refcount_inv s \<Longrightarrow> objs s h = Some x \<Longrightarrow> count x = Some c \<Longrightarrow> \<exists>v. cells s c = Some v"
  unfolding refcount_inv_def by blast

lemma inv_count: "refcount_inv s \<Longrightarrow> cells s c = Some v \<Longrightarrow> sint v = int (card (owners s c))"
  unfolding refcount_inv_def by blast

lemma inv_nonempty: "refcount_inv s \<Longrightarrow> cells s c = Some v \<Longrightarrow> owners s c \<noteq> {}"
  unfolding refcount_inv_def by blast

lemma inv_free: "refcount_inv s \<Longrightarrow> cells s c = None \<Longrightarrow> owners s c = {}"
  unfolding refcount_inv_def owners_def by fastforce

lemma inv_init: "refcount_inv init"
  by (simp add: refcount_inv_def init_def)

lemma inv_sole_owner:
  assumes "refcount_inv s" and "objs s h = Some x" and "count x = Some c" and "cells s c = Some 1"
  shows "owners s c = {h}"
proof -
  have "card (owners s c) = 1"
    using inv_count [OF assms(1,4)] by simp
  moreover have "h \<in> owners s c"
    using assms(2,3) by (auto simp: owners_iff)
  ultimately show ?thesis
    by (metis card_1_singletonE singletonD)
qed

lemma inv_counts_ok: "refcount_inv s \<Longrightarrow> counts_ok s"
  unfolding counts_ok_def
proof (intro allI impI)
  fix h x c assume i: "refcount_inv s" and x: "objs s h = Some x" and c: "count x = Some c"
  from inv_alloc [OF i x c] obtain v where v: "cells s c = Some v" by blast
  have "h \<in> owners s c" using x c by (auto simp: owners_iff)
  with finite_owners [OF inv_finite [OF i], of c] have "0 < card (owners s c)"
    by (auto simp: card_gt_0_iff)
  with inv_count [OF i v] v
  show "\<exists>v. cells s c = Some v \<and> sint v = int (card (owners s c)) \<and> 0 < sint v"
    by simp
qed

lemma release_defined:
  assumes "refcount_inv s" and "objs s h = Some x"
  shows "\<exists>s1. release s h = Some s1"
proof (cases "count x")
  case None
  with assms show ?thesis by (simp add: release_def)
next
  case (Some c)
  with assms obtain v where "cells s c = Some v"
    using inv_alloc by blast
  with assms Some show ?thesis by (simp add: release_def Let_def)
qed

lemma acquire_defined:
  assumes "refcount_inv s" and "objs s src = Some y"
  shows "\<exists>s'. acquire s h src = Some s'"
proof (cases "count y")
  case None
  with assms show ?thesis by (simp add: acquire_def)
next
  case (Some c)
  with assms obtain v where v: "cells s c = Some v" using inv_alloc by blast
  with assms Some show ?thesis by (simp add: acquire_def Let_def)
qed

text \<open>Releasing a handle's share and then dropping the handle keeps the invariant.\<close>

lemma detach_inv:
  assumes i: "refcount_inv s" and r: "release s h = Some s1"
    and o: "objs t = (objs s)(h := None)" and ct: "cells t = cells s1"
  shows "refcount_inv t"
proof -
  from release_live [OF r] obtain x where x: "objs s h = Some x" by blast
  from release_result [OF r x] have
    rc: "case count x of
             None \<Rightarrow> cells s1 = cells s \<and> trace s1 = trace s
           | Some c \<Rightarrow>
              (\<exists>v. cells s c = Some v \<and>
                 (if v = 1
                  then cells s1 = (cells s)(c := None) \<and>
                       trace s1 = trace s @ [Invoke (deleter x) (ptr x), Delete c]
                  else cells s1 = (cells s)(c \<mapsto> v - 1) \<and> trace s1 = trace s))"
    by simp
  have fin: "finite (dom (objs s))" using i by (rule inv_finite)
  have fin_t: "finite (dom (objs t))" using fin o by simp
  have ow: "\<And>c. owners t c = owners s c - {h}" using o by (rule owners_del)
  have other: "\<And>c. count x \<noteq> Some c \<Longrightarrow> owners t c = owners s c"
    using ow x by (auto simp: owners_iff)
  show ?thesis
  proof (cases "count x")
    case None
    with rc ct have c: "cells t = cells s" by simp
    show ?thesis
    proof (rule invI [OF fin_t])
      fix h' x' c' assume "objs t h' = Some x'" "count x' = Some c'"
      with o i c show "cells t c' \<noteq> None"
        by (auto simp: refcount_inv_def split: if_splits)
    next
      fix c' v assume "cells t c' = Some v"
      with c i other [of c'] None show "sint v = int (card (owners t c')) \<and> owners t c' \<noteq> {}"
        by (simp add: refcount_inv_def)
    qed
  next
    case (Some c)
    with rc obtain v where v: "cells s c = Some v" and
      rc': "if v = 1 then cells s1 = (cells s)(c := None) else cells s1 = (cells s)(c \<mapsto> v - 1)"
      by (auto split: if_splits)
    have hin: "h \<in> owners s c" using x Some by (auto simp: owners_iff)
    have cnt: "sint v = int (card (owners s c))" using i v by (rule inv_count)
    have finc: "finite (owners s c)" using fin by (rule finite_owners)
    have pos: "0 < card (owners s c)" using hin finc by (auto simp: card_gt_0_iff)
    have card_t: "card (owners t c) = card (owners s c) - 1"
      using ow [of c] hin finc by simp
    show ?thesis
    proof (cases "v = 1")
      case True
      with rc' ct have c: "cells t = (cells s)(c := None)" by simp
      from True cnt have "card (owners s c) = 1" by simp
      with hin have sole: "owners s c = {h}"
        by (metis card_1_singletonE singletonD)
      show ?thesis
      proof (rule invI [OF fin_t])
        fix h' x' c' assume a: "objs t h' = Some x'" "count x' = Some c'"
        with o have h': "h' \<noteq> h" "objs s h' = Some x'" by (auto split: if_splits)
        with a i have "cells s c' \<noteq> None" by (auto simp: refcount_inv_def)
        moreover have "c' \<noteq> c"
        proof
          assume "c' = c"
          with h' a have "h' \<in> owners s c" by (auto simp: owners_iff)
          with sole h' show False by simp
        qed
        ultimately show "cells t c' \<noteq> None" using c by simp
      next
        fix c' v' assume a: "cells t c' = Some v'"
        with c have "c' \<noteq> c" "cells s c' = Some v'" by (auto split: if_splits)
        with i other [of c'] Some show "sint v' = int (card (owners t c')) \<and> owners t c' \<noteq> {}"
          by (simp add: refcount_inv_def)
      qed
    next
      case False
      with rc' ct have c: "cells t = (cells s)(c \<mapsto> v - 1)" by simp
      from False cnt have "card (owners s c) \<noteq> 1" by (simp add: sint_eq_1 [symmetric])
      with pos have two: "2 \<le> card (owners s c)" by simp
      show ?thesis
      proof (rule invI [OF fin_t])
        fix h' x' c' assume a: "objs t h' = Some x'" "count x' = Some c'"
        with o have h': "h' \<noteq> h" "objs s h' = Some x'" by (auto split: if_splits)
        with a i have "cells s c' \<noteq> None" by (auto simp: refcount_inv_def)
        then show "cells t c' \<noteq> None" using c by simp
      next
        fix c' v' assume a: "cells t c' = Some v'"
        show "sint v' = int (card (owners t c')) \<and> owners t c' \<noteq> {}"
        proof (cases "c' = c")
          case True
          with a c have "v' = v - 1" by simp
          with sint_dec [OF cnt pos] card_t have "sint v' = int (card (owners t c))" by simp
          moreover from card_t two have "owners t c \<noteq> {}" by auto
          ultimately show ?thesis using True by simp
        next
          case False
          with a c have "cells s c' = Some v'" by simp
          with i other [of c'] Some False show ?thesis by (simp add: refcount_inv_def)
        qed
      qed
    qed
  qed
qed

text \<open>
  A handle that is not alive, or has just been dropped, can be given a record
  without a cell, ...
\<close>

lemma attach_none:
  assumes i: "refcount_inv t" and f: "objs t h = None"
    and o: "objs t' = (objs t)(h \<mapsto> x)" and n: "count x = None" and c: "cells t' = cells t"
  shows "refcount_inv t'"
proof -
  have fin: "finite (dom (objs t'))" using inv_finite [OF i] o by simp
  have ow: "\<And>c. owners t' c = owners t c"
    using owners_upd [OF o] n f by (auto simp: owners_iff)
  show ?thesis
  proof (rule invI [OF fin])
    fix h' x' c' assume "objs t' h' = Some x'" "count x' = Some c'"
    with o n have "objs t h' = Some x'" by (auto split: if_splits)
    with i \<open>count x' = Some c'\<close> c show "cells t' c' \<noteq> None" by (auto simp: refcount_inv_def)
  next
    fix c' v assume "cells t' c' = Some v"
    with c i ow show "sint v = int (card (owners t' c')) \<and> owners t' c' \<noteq> {}"
      by (simp add: refcount_inv_def)
  qed
qed

text \<open>... a record with a freshly allocated cell holding 1, ...\<close>

lemma attach_new:
  assumes i: "refcount_inv t" and f: "objs t h = None" and fc: "cells t c = None"
    and o: "objs t' = (objs t)(h \<mapsto> x)" and n: "count x = Some c"
    and c: "cells t' = (cells t)(c \<mapsto> 1)"
  shows "refcount_inv t'"
proof -
  have fin: "finite (dom (objs t'))" using inv_finite [OF i] o by simp
  have hout: "\<And>c'. h \<notin> owners t c'" using f by (simp add: owners_iff)
  have ow: "\<And>c'. c' \<noteq> c \<Longrightarrow> owners t' c' = owners t c'"
    using owners_upd [OF o] n hout by auto
  have owc: "owners t' c = {h}"
    using owners_upd [OF o, of c] n inv_free [OF i fc] by simp
  show ?thesis
  proof (rule invI [OF fin])
    fix h' x' c' assume a: "objs t' h' = Some x'" "count x' = Some c'"
    show "cells t' c' \<noteq> None"
    proof (cases "c' = c")
      case True
      with c show ?thesis by simp
    next
      case False
      with a o n have "objs t h' = Some x'" by (auto split: if_splits)
      with i a(2) have "cells t c' \<noteq> None" by (auto simp: refcount_inv_def)
      with c False show ?thesis by simp
    qed
  next
    fix c' v assume a: "cells t' c' = Some v"
    show "sint v = int (card (owners t' c')) \<and> owners t' c' \<noteq> {}"
    proof (cases "c' = c")
      case True
      with a c owc show ?thesis by simp
    next
      case False
      with a c have "cells t c' = Some v" by simp
      with i ow [OF False] show ?thesis by (simp add: refcount_inv_def)
    qed
  qed
qed

text \<open>... or a copy of another live handle's record, whose cell is incremented.\<close>

lemma attach_copy:
  assumes i: "refcount_inv t" and f: "objs t h = None" and src: "objs t src = Some y"
    and n: "count y = Some c" and v: "cells t c = Some v"
    and o: "objs t' = (objs t)(h \<mapsto> x)" and x: "count x = Some c"
    and c: "cells t' = (cells t)(c \<mapsto> v + 1)"
    and b: "card (owners t c) < INT_MAX"
  shows "refcount_inv t'"
proof -
  have fin0: "finite (dom (objs t))" using i by (rule inv_finite)
  have fin: "finite (dom (objs t'))" using fin0 o by simp
  have hout: "\<And>c'. h \<notin> owners t c'" using f by (simp add: owners_iff)
  have ow: "\<And>c'. c' \<noteq> c \<Longrightarrow> owners t' c' = owners t c'"
    using owners_upd [OF o] x hout by auto
  have owc: "owners t' c = insert h (owners t c)"
    using owners_upd [OF o, of c] x by simp
  have cardc: "card (owners t' c) = Suc (card (owners t c))"
    using owc hout [of c] finite_owners [OF fin0, of c] by simp
  from inv_count [OF i v] b have sv: "sint (v + 1) = int (Suc (card (owners t c)))"
    by (rule sint_inc)
  show ?thesis
  proof (rule invI [OF fin])
    fix h' x' c' assume a: "objs t' h' = Some x'" "count x' = Some c'"
    show "cells t' c' \<noteq> None"
    proof (cases "c' = c")
      case True
      with c show ?thesis by simp
    next
      case False
      with a o x have "objs t h' = Some x'" by (auto split: if_splits)
      with i a(2) have "cells t c' \<noteq> None" by (auto simp: refcount_inv_def)
      with c False show ?thesis by simp
    qed
  next
    fix c' v' assume a: "cells t' c' = Some v'"
    show "sint v' = int (card (owners t' c')) \<and> owners t' c' \<noteq> {}"
    proof (cases "c' = c")
      case True
      with a c have "v' = v + 1" by simp
      with sv cardc owc True show ?thesis by simp
    next
      case False
      with a c have "cells t c' = Some v'" by simp
      with i ow [OF False] show ?thesis by (simp add: refcount_inv_def)
    qed
  qed
qed

text \<open>
  \<open>acquire\<close> on a handle that holds no share: the copy constructor, and the second half
  of copy assignment.
\<close>

lemma acquire_inv:
  assumes i: "refcount_inv t" and f: "objs t h = None" and b: "fits s'"
    and o: "objs s = (objs t)(h := z)" and c: "cells s = cells t"
    and a: "acquire s h src = Some s'" and ne: "src \<noteq> h"
  shows "refcount_inv s'"
proof -
  from acquire_live [OF a] obtain y where y: "objs s src = Some y" by blast
  with o ne have yt: "objs t src = Some y" by simp
  let ?x = "\<lparr>ptr = ptr y, count = count y, deleter = deleter y\<rparr>"
  from acquire_result [OF a y] have
    o': "objs s' = (objs s)(h \<mapsto> ?x)" and
    c': "case count y of
            None \<Rightarrow> cells s' = cells s
          | Some c \<Rightarrow> (\<exists>v. cells s c = Some v \<and> cells s' = (cells s)(c \<mapsto> v + 1))"
    by simp_all
  from o' o have ot: "objs s' = (objs t)(h \<mapsto> ?x)" by simp
  show ?thesis
  proof (cases "count y")
    case None
    with c' c have ct: "cells s' = cells t" by simp
    show ?thesis by (rule attach_none [OF i f ot _ ct]) (simp add: None)
  next
    case (Some cc)
    with c' c obtain v where v: "cells t cc = Some v"
      and cs: "cells s' = (cells t)(cc \<mapsto> v + 1)"
      by auto
    have "owners s' cc = insert h (owners t cc)"
      using owners_upd [OF ot, of cc] Some by simp
    moreover have "h \<notin> owners t cc" using f by (simp add: owners_iff)
    ultimately have "card (owners s' cc) = Suc (card (owners t cc))"
      using finite_owners [OF inv_finite [OF i], of cc] by simp
    moreover from b have "card (owners s' cc) \<le> INT_MAX" by (simp add: fits_def)
    ultimately have bt: "card (owners t cc) < INT_MAX" by simp
    show ?thesis by (rule attach_copy [OF i f yt Some v ot _ cs bt]) (simp add: Some)
  qed
qed

lemma swap_inv:
  assumes i: "refcount_inv s" and a: "objs s a = Some xa" and b: "objs s b = Some xb"
    and o: "objs s' = (objs s)(a \<mapsto> xb, b \<mapsto> xa)" and c: "cells s' = cells s"
  shows "refcount_inv s'"
proof -
  have d: "dom (objs s') = dom (objs s)" using a b o by auto
  have fin: "finite (dom (objs s'))" using inv_finite [OF i] d by simp
  show ?thesis
  proof (rule invI [OF fin])
    fix h' x' c' assume h: "objs s' h' = Some x'" "count x' = Some c'"
    have "\<exists>k. objs s k = Some x'"
      using h(1) o a b by (auto split: if_splits)
    with i h(2) c show "cells s' c' \<noteq> None" by (auto simp: refcount_inv_def)
  next
    fix c' v assume "cells s' c' = Some v"
    with c have v: "cells s c' = Some v" by simp
    have "owners s c' \<noteq> {}" using i v by (rule inv_nonempty)
    then have "owners s' c' \<noteq> {}" unfolding swap_owners [OF a b o] by blast
    with inv_count [OF i v] swap_card [OF a b o, of c']
    show "sint v = int (card (owners s' c')) \<and> owners s' c' \<noteq> {}" by simp
  qed
qed

text \<open>
  Every operation keeps the invariant, as long as the \<open>int\<close> counters can hold the counts
  of the state it leads to.
\<close>

lemma step_inv_fits:
  assumes i: "refcount_inv s" and st: "step s x = Some s'" and b: "fits s'"
  shows "refcount_inv s'"
proof (cases x)
  case (Default h)
  with st have f: "objs s h = None"
    and s': "s' = s\<lparr>objs := (objs s)(h \<mapsto> \<lparr>ptr = None, count = None, deleter = defaultDeleter\<rparr>)\<rparr>"
    by (auto simp: SharedPtr_default_def split: if_splits)
  show ?thesis
    by (rule attach_none [OF i f, where x = "\<lparr>ptr = None, count = None, deleter = defaultDeleter\<rparr>"])
       (simp_all add: s')
next
  case (Bind h p d c)
  with st have f: "objs s h = None" and fc: "cells s c = None"
    and o: "objs s' = (objs s)(h \<mapsto> \<lparr>ptr = p, count = Some c, deleter = d\<rparr>)"
    and c: "cells s' = (cells s)(c \<mapsto> 1)"
    by (auto simp: SharedPtr_bind_def new_atomic_int_def split: if_splits)
  show ?thesis
    by (rule attach_new [OF i f fc o _ c]) simp
next
  case (Copy h src)
  with st have f: "objs s h = None" and a: "acquire s h src = Some s'"
    by (auto simp: SharedPtr_copy_def split: if_splits)
  from acquire_live [OF a] f have ne: "src \<noteq> h" by auto
  show ?thesis
    by (rule acquire_inv [OF i f b _ _ a ne, where z = None]) (simp_all add: f [symmetric])
next
  case (Assign h src)
  show ?thesis
  proof (cases "h = src")
    case True
    with Assign st i show ?thesis by (simp add: operator_assign_def split: if_splits)
  next
    case False
    with Assign st obtain s1 where r: "release s h = Some s1" and a: "acquire s1 h src = Some s'"
      and live: "objs s h \<noteq> None"
      by (cases "release s h") (auto simp: operator_assign_def split: if_splits)
    define t where "t = s1\<lparr>objs := (objs s)(h := None)\<rparr>"
    have it: "refcount_inv t" by (rule detach_inv [OF i r]) (simp_all add: t_def)
    have ft: "objs t h = None" by (simp add: t_def)
    from release_live [OF r] obtain x where x: "objs s h = Some x" by blast
    have o1: "objs s1 = (objs t)(h := Some x)"
      using release_result [OF r x] x by (auto simp: t_def fun_eq_iff)
    have c1: "cells s1 = cells t" by (simp add: t_def)
    from False have ne: "src \<noteq> h" by simp
    show ?thesis by (rule acquire_inv [OF it ft b o1 c1 a ne])
  qed
next
  case (Reset h p d c)
  with st obtain s1 where r: "release s h = Some s1" and fc: "cells s1 c = None"
    and o: "objs s' = (objs s1)(h \<mapsto> \<lparr>ptr = p, count = Some c, deleter = d\<rparr>)"
    and c: "cells s' = (cells s1)(c \<mapsto> 1)"
    by (cases "release s h") (auto simp: reset_def new_atomic_int_def split: if_splits)
  define t where "t = s1\<lparr>objs := (objs s)(h := None)\<rparr>"
  have it: "refcount_inv t" by (rule detach_inv [OF i r]) (simp_all add: t_def)
  have ft: "objs t h = None" by (simp add: t_def)
  from release_live [OF r] obtain x where x: "objs s h = Some x" by blast
  have "objs s1 = objs s" using release_result [OF r x] by simp
  with o have o': "objs s' = (objs t)(h \<mapsto> \<lparr>ptr = p, count = Some c, deleter = d\<rparr>)"
    by (simp add: t_def)
  show ?thesis
    by (rule attach_new [OF it ft _ o' _]) (simp_all add: t_def fc c)
next
  case (Swap a b)
  with st obtain xa xb where "objs s a = Some xa" "objs s b = Some xb"
    "s' = s\<lparr>objs := (objs s)(a \<mapsto> xb, b \<mapsto> xa)\<rparr>"
    using swap_result by fastforce
  then show ?thesis
    by (intro swap_inv [OF i, of a xa b xb]) simp_all
next
  case (Destroy h)
  with st obtain s1 where r: "release s h = Some s1" and s': "s' = s1\<lparr>objs := (objs s1)(h := None)\<rparr>"
    by (cases "release s h") (auto simp: SharedPtr_dtor_def)
  from release_live [OF r] obtain x where x: "objs s h = Some x" by blast
  have "objs s1 = objs s" using release_result [OF r x] by simp
  then show ?thesis
    by (intro detach_inv [OF i r]) (simp_all add: s')
qed

lemma step_dom:
  assumes "step s x = Some s'"
  shows "\<exists>h. dom (objs s') \<subseteq> insert h (dom (objs s))"
proof (cases x)
  case (Default h)
  with assms show ?thesis by (auto simp: SharedPtr_default_def split: if_splits)
next
  case (Bind h p d c)
  with assms show ?thesis
    by (auto simp: SharedPtr_bind_def new_atomic_int_def split: if_splits)
next
  case (Copy h src)
  with assms have a: "acquire s h src = Some s'"
    by (auto simp: SharedPtr_copy_def split: if_splits)
  from acquire_live [OF a] obtain y where y: "objs s src = Some y" by blast
  from acquire_result [OF a y] show ?thesis by auto
next
  case (Assign h src)
  show ?thesis
  proof (cases "h = src")
    case True
    with Assign assms show ?thesis by (auto simp: operator_assign_def split: if_splits)
  next
    case False
    with Assign assms obtain s1 where r: "release s h = Some s1" and a: "acquire s1 h src = Some s'"
      by (cases "release s h") (auto simp: operator_assign_def split: if_splits)
    from acquire_live [OF a] obtain y where y: "objs s1 src = Some y" by blast
    from acquire_result [OF a y] release_objs [OF r] show ?thesis by auto
  qed
next
  case (Reset h p d c)
  with assms obtain s1 where r: "release s h = Some s1"
    and o: "objs s' = (objs s1)(h \<mapsto> \<lparr>ptr = p, count = Some c, deleter = d\<rparr>)"
    by (cases "release s h") (auto simp: reset_def new_atomic_int_def split: if_splits)
  with release_objs [OF r] show ?thesis by auto
next
  case (Swap a b)
  with assms obtain xa xb where "objs s a = Some xa" "objs s b = Some xb"
    "s' = s\<lparr>objs := (objs s)(a \<mapsto> xb, b \<mapsto> xa)\<rparr>"
    using swap_result by fastforce
  then show ?thesis by auto
next
  case (Destroy h)
  with assms obtain s1 where r: "release s h = Some s1" and s': "s' = s1\<lparr>objs := (objs s1)(h := None)\<rparr>"
    by (cases "release s h") (auto simp: SharedPtr_dtor_def)
  with release_objs [OF r] show ?thesis by auto
qed

lemma step_card:
  assumes "step s x = Some s'" and "finite (dom (objs s))"
  shows "card (dom (objs s')) \<le> Suc (card (dom (objs s)))"
proof -
  from step_dom [OF assms(1)] obtain h where "dom (objs s') \<subseteq> insert h (dom (objs s))" by blast
  with assms(2) have "card (dom (objs s')) \<le> card (insert h (dom (objs s)))"
    by (intro card_mono) simp_all
  also have "\<dots> \<le> Suc (card (dom (objs s)))"
    using assms(2) by (simp add: card_insert_if)
  finally show ?thesis .
qed

lemma fits_small:
  assumes "finite (dom (objs s))" and "card (dom (objs s)) \<le> INT_MAX"
  shows "fits s"
  unfolding fits_def
proof
  fix c
  from card_owners_le [OF assms(1), of c] assms(2) show "card (owners s c) \<le> INT_MAX"
    by simp
qed

text \<open>In particular when fewer than \<open>INT_MAX\<close> handles are alive before the operation.\<close>

lemma step_inv:
  assumes i: "refcount_inv s" and st: "step s x = Some s'" and b: "card (dom (objs s)) < INT_MAX"
  shows "refcount_inv s'"
proof -
  have fin: "finite (dom (objs s))" using i by (rule inv_finite)
  from step_dom [OF st] obtain h where "dom (objs s') \<subseteq> insert h (dom (objs s))" by blast
  with fin have "finite (dom (objs s'))" by (auto intro: finite_subset)
  moreover from step_card [OF st fin] b have "card (dom (objs s')) \<le> INT_MAX" by simp
  ultimately have "fits s'" by (rule fits_small)
  with i st show ?thesis by (rule step_inv_fits)
qed

text \<open>A state whose counters show the counts has counters that can hold them.\<close>

lemma counts_ok_fits:
  assumes "counts_ok s"
  shows "fits s"
  unfolding fits_def
proof
  fix c
  show "card (owners s c) \<le> INT_MAX"
  proof (cases "owners s c = {}")
    case True
    then show ?thesis by simp
  next
    case False
    then obtain h x where "objs s h = Some x" "count x = Some c"
      by (auto simp: owners_iff)
    with assms obtain v :: "32 word" where "sint v = int (card (owners s c))"
      unfolding counts_ok_def by blast
    with sint_lt [of v] show ?thesis by (simp add: INT_MAX_def)
  qed
qed

lemma run_card:
  assumes "run s ops = Some t" and "finite (dom (objs s))"
  shows "finite (dom (objs t)) \<and> card (dom (objs t)) \<le> card (dom (objs s)) + length ops"
  using assms
proof (induction ops arbitrary: s)
  case Nil
  then show ?case by simp
next
  case (Cons x xs)
  from Cons.prems(1) obtain s1 where st: "step s x = Some s1" and r: "run s1 xs = Some t"
    by (cases "step s x") auto
  from step_dom [OF st] obtain h where "dom (objs s1) \<subseteq> insert h (dom (objs s))" by blast
  with Cons.prems(2) have fin1: "finite (dom (objs s1))" by (auto intro: finite_subset)
  from Cons.IH [OF r fin1] step_card [OF st Cons.prems(2)] show ?case by simp
qed

text \<open>A run too short to create \<open>INT_MAX\<close> handles never overflows a counter.\<close>

lemma run_fits_short:
  assumes "finite (dom (objs s))" and "card (dom (objs s)) + length ops \<le> INT_MAX"
    and "run s (take n ops) = Some t"
  shows "fits t"
proof -
  from run_card [OF assms(3,1)] have "finite (dom (objs t))"
    and "card (dom (objs t)) \<le> card (dom (objs s)) + length (take n ops)"
    by simp_all
  moreover have "length (take n ops) \<le> length ops" by simp
  ultimately show ?thesis using assms(2) by (intro fits_small) simp_all
qed

lemma run_append:
  "run s (xs @ ys) = (case run s xs of None \<Rightarrow> None | Some t \<Rightarrow> run t ys)"
  by (induction xs arbitrary: s) (auto split: option.splits)

lemma run_inv:
  assumes "refcount_inv s" and "run s ops = Some s'" and "card (dom (objs s)) + length ops \<le> INT_MAX"
  shows "refcount_inv s'"
  using assms
proof (induction ops arbitrary: s)
  case Nil
  then show ?case by simp
next
  case (Cons x xs)
  from Cons.prems(2) obtain s1 where st: "step s x = Some s1" and r: "run s1 xs = Some s'"
    by (cases "step s x") auto
  from Cons.prems(3) have b: "card (dom (objs s)) < INT_MAX" by simp
  have i1: "refcount_inv s1" using Cons.prems(1) st b by (rule step_inv)
  from step_card [OF st inv_finite [OF Cons.prems(1)]] Cons.prems(3)
  have "card (dom (objs s1)) + length xs \<le> INT_MAX" by simp
  with i1 r show ?case by (rule Cons.IH)
qed

text \<open>Along a run whose states all have counters that can hold the counts.\<close>

lemma run_inv_fits:
  assumes "refcount_inv s" and "run s ops = Some s'"
    and "\<forall>n \<le> length ops. \<forall>t. run s (take n ops) = Some t \<longrightarrow> fits t"
  shows "refcount_inv s'"
  using assms
proof (induction ops arbitrary: s)
  case Nil
  then show ?case by simp
next
  case (Cons x xs)
  from Cons.prems(2) obtain s1 where st: "step s x = Some s1" and r: "run s1 xs = Some s'"
    by (cases "step s x") auto
  have "run s (take 1 (x # xs)) = Some s1" using st by simp
  with Cons.prems(3) have f1: "fits s1" by (metis One_nat_def Suc_leI length_Cons zero_less_Suc)
  have i1: "refcount_inv s1" using Cons.prems(1) st f1 by (rule step_inv_fits)
  have "\<forall>n \<le> length xs. \<forall>t. run s1 (take n xs) = Some t \<longrightarrow> fits t"
  proof (intro allI impI)
    fix n t assume n: "n \<le> length xs" and t: "run s1 (take n xs) = Some t"
    from t st have "run s (take (Suc n) (x # xs)) = Some t" by simp
    moreover from n have "Suc n \<le> length (x # xs)" by simp
    ultimately show "fits t" using Cons.prems(3) by blast
  qed
  with i1 r show ?case by (rule Cons.IH)
qed

lemma run_prefix:
  assumes "run s ops = Some s'"
  shows "\<exists>t. run s (take n ops) = Some t"
proof -
  have "run s (take n ops @ drop n ops) = Some s'" using assms by simp
  then show ?thesis
    unfolding run_append by (cases "run s (take n ops)") auto
qed

lemma release_cells_other:
  assumes "release s h = Some s1" and "cells s c = None"
  shows "cells s1 c = None"
proof -
  from release_live [OF assms(1)] obtain x where x: "objs s h = Some x" by blast
  show ?thesis
  proof (cases "count x")
    case None
    with release_result [OF assms(1) x] assms(2) show ?thesis by simp
  next
    case (Some c')
    with release_result [OF assms(1) x] obtain v where "cells s c' = Some v"
      "cells s1 = (cells s)(c' := None) \<or> cells s1 = (cells s)(c' \<mapsto> v - 1)"
      by (auto split: if_splits)
    with assms(2) show ?thesis by auto
  qed
qed

text \<open>
  From a state that satisfies the invariant, a legal call is defined: the code never
  reads a freed counter cell.
\<close>

lemma step_defined:
  assumes i: "refcount_inv s" and l: "legal s x"
  shows "\<exists>s'. step s x = Some s'"
proof (cases x)
  case (Default h)
  with l show ?thesis by (simp add: SharedPtr_default_def)
next
  case (Bind h p d c)
  with l show ?thesis by (simp add: SharedPtr_bind_def new_atomic_int_def)
next
  case (Copy h src)
  with l obtain y where "objs s h = None" "objs s src = Some y" by auto
  with acquire_defined [OF i, of src y h] Copy show ?thesis by (simp add: SharedPtr_copy_def)
next
  case (Assign h src)
  with l obtain x' y where x': "objs s h = Some x'" and y: "objs s src = Some y" by auto
  show ?thesis
  proof (cases "h = src")
    case True
    with Assign x' show ?thesis by (simp add: operator_assign_def)
  next
    case False
    from release_defined [OF i x'] obtain s1 where r: "release s h = Some s1" by blast
    define t where "t = s1\<lparr>objs := (objs s)(h := None)\<rparr>"
    have it: "refcount_inv t" by (rule detach_inv [OF i r]) (simp_all add: t_def)
    have o1: "objs s1 = objs s" using release_result [OF r x'] by simp
    have "\<exists>s'. acquire s1 h src = Some s'"
    proof (cases "count y")
      case None
      with y o1 show ?thesis by (simp add: acquire_def)
    next
      case (Some c)
      from False y have "objs t src = Some y" by (simp add: t_def)
      from inv_alloc [OF it this Some] obtain v where "cells s1 c = Some v"
        by (auto simp: t_def)
      with y o1 Some show ?thesis by (simp add: acquire_def Let_def)
    qed
    with r False Assign x' y show ?thesis by (auto simp: operator_assign_def)
  qed
next
  case (Reset h p d c)
  with l obtain x' where x': "objs s h = Some x'" by auto
  from release_defined [OF i x'] obtain s1 where r: "release s h = Some s1" by blast
  have "cells s1 c = None"
  proof (cases "cells s c")
    case None
    with r show ?thesis by (rule release_cells_other)
  next
    case (Some v)
    with l Reset x' have "count x' = Some c" "cells s c = Some 1" by auto
    with x' r show ?thesis by (auto simp: release_last)
  qed
  with r Reset show ?thesis by (simp add: reset_def new_atomic_int_def)
next
  case (Swap a b)
  with l obtain xa xb where "objs s a = Some xa" "objs s b = Some xb" by auto
  with Swap show ?thesis by (simp add: SharedPtr_swap_eq)
next
  case (Destroy h)
  with l obtain x' where x': "objs s h = Some x'" by auto
  from release_defined [OF i x'] Destroy show ?thesis by (auto simp: SharedPtr_dtor_def)
qed

text \<open>
  Conversely, a call that is defined is legal. So from a state that satisfies the
  invariant the defined calls are exactly the legal ones.
\<close>

lemma step_legal:
  assumes "step s x = Some s'"
  shows "legal s x"
proof (cases x)
  case (Default h)
  with assms show ?thesis by (simp add: SharedPtr_default_def split: if_splits)
next
  case (Bind h p d c)
  with assms show ?thesis
    by (simp add: SharedPtr_bind_def new_atomic_int_def split: if_splits)
next
  case (Copy h src)
  with assms have "objs s h = None" "acquire s h src = Some s'"
    by (simp_all add: SharedPtr_copy_def split: if_splits)
  with acquire_live [of s h src s'] Copy show ?thesis by auto
next
  case (Assign h src)
  with assms show ?thesis by (simp split: if_splits)
next
  case (Reset h p d c)
  with assms obtain s1 where r: "release s h = Some s1" and fc: "cells s1 c = None"
    by (cases "release s h") (auto simp: reset_def new_atomic_int_def split: if_splits)
  from release_live [OF r] obtain x' where x': "objs s h = Some x'" by blast
  have "cells s c = None \<or> (count x' = Some c \<and> cells s c = Some 1)"
  proof (cases "count x'")
    case None
    with release_result [OF r x'] fc show ?thesis by simp
  next
    case (Some c')
    with release_result [OF r x'] obtain v where v: "cells s c' = Some v"
      and c1: "if v = 1 then cells s1 = (cells s)(c' := None)
               else cells s1 = (cells s)(c' \<mapsto> v - 1)"
      by (auto split: if_splits)
    show ?thesis
    proof (cases "c = c'")
      case True
      with c1 fc v Some show ?thesis by (auto split: if_splits)
    next
      case False
      with c1 fc show ?thesis by (auto split: if_splits)
    qed
  qed
  with Reset x' show ?thesis by auto
next
  case (Swap a b)
  with assms swap_result [of s a b s'] show ?thesis by auto
next
  case (Destroy h)
  with assms obtain s1 where "release s h = Some s1"
    by (cases "release s h") (auto simp: SharedPtr_dtor_def)
  with release_live [of s h s1] Destroy show ?thesis by auto
qed

text \<open>
  Claim C2. Start in a state that satisfies the invariant (the initial state does), and
  run any sequence of operations (copy construction, copy assignment, \<open>reset\<close>,
  destruction, and also construction and \<open>swap\<close>) on which the code is defined (by
  \<open>step_defined\<close> and \<open>step_legal\<close>: in which every call is legal), and during which
  no cell ever has more than \<open>INT_MAX\<close> live handles on it, so that the \<open>int\<close> counter
  can hold the count (by \<open>counts_ok_fits\<close> the conclusion cannot hold otherwise). Then
  after every prefix of the sequence, every counter cell referenced by a live handle
  is allocated, its value read as an \<open>int\<close> equals the number of live handles that
  reference it, and it is positive. The length of the sequence is not bounded.
\<close>

theorem count_equals_live_handles:
  assumes "refcount_inv s" and "run s ops = Some s'"
    and "\<forall>n \<le> length ops. \<forall>t. run s (take n ops) = Some t \<longrightarrow> fits t"
  shows "\<forall>n \<le> length ops. \<exists>t. run s (take n ops) = Some t \<and> counts_ok t"
proof (intro allI impI)
  fix n assume n: "n \<le> length ops"
  from run_prefix [OF assms(2)] obtain t where t: "run s (take n ops) = Some t" by blast
  have "\<forall>m \<le> length (take n ops). \<forall>u. run s (take m (take n ops)) = Some u \<longrightarrow> fits u"
  proof (intro allI impI)
    fix m u assume m: "m \<le> length (take n ops)" and u: "run s (take m (take n ops)) = Some u"
    from m n have mn: "m \<le> n" and ml: "m \<le> length ops" by simp_all
    from mn have "take m (take n ops) = take m ops" by (simp add: min_absorb1)
    with u have "run s (take m ops) = Some u" by simp
    with assms(3) ml show "fits u" by blast
  qed
  with assms(1) t have "refcount_inv t" by (rule run_inv_fits)
  with t show "\<exists>t. run s (take n ops) = Some t \<and> counts_ok t"
    by (simp add: inv_counts_ok)
qed

theorem count_equals_live_handles_witness:
  "refcount_inv init \<and> run init example_ops \<noteq> None \<and>
   (\<exists>t. run init (take 4 example_ops) = Some t \<and> counts_ok t \<and>
        use_count t 1 = Some 3 \<and> use_count t 2 = Some 3 \<and> use_count t 3 = Some 3)"
proof -
  have i: "refcount_inv init" by (simp add: refcount_inv_def init_def)
  have r: "run init example_ops \<noteq> None"
    by (simp add: example_ops_def init_def op_defs)
  then obtain s' where s': "run init example_ops = Some s'" by blast
  have fin: "finite (dom (objs init))" by (simp add: init_def)
  have b: "card (dom (objs init)) + length example_ops \<le> INT_MAX"
    by (simp add: init_def example_ops_def INT_MAX_def)
  have f: "\<forall>n \<le> length example_ops. \<forall>t. run init (take n example_ops) = Some t \<longrightarrow> fits t"
    using run_fits_short [OF fin b] by blast
  have "4 \<le> length example_ops" by (simp add: example_ops_def)
  with count_equals_live_handles [OF i s' f]
  obtain t where t: "run init (take 4 example_ops) = Some t" "counts_ok t"
    by blast
  from t(1) have "use_count t 1 = Some 3 \<and> use_count t 2 = Some 3 \<and> use_count t 3 = Some 3"
    by (auto simp: example_ops_def init_def op_defs use_count_def)
  with i r t show ?thesis by blast
qed

section \<open>Cleanup runs exactly once, at the last destruction\<close>

lemma use_count_1:
  assumes "objs s h = Some x" and "count x = Some c" and "use_count s h = Some 1"
  shows "cells s c = Some 1"
proof -
  from assms obtain v where v: "cells s c = Some v" and "sint v = 1"
    by (auto simp: use_count_def)
  then show ?thesis by (simp add: sint_eq_1)
qed

lemma take_not_all:
  assumes "distinct ds" and "n < length ds"
  shows "\<not> set ds \<subseteq> set (take n ds)"
proof
  assume "set ds \<subseteq> set (take n ds)"
  then have "card (set ds) \<le> card (set (take n ds))" by (simp add: card_mono)
  moreover have "card (set ds) = length ds" using assms(1) by (rule distinct_card)
  moreover have "card (set (take n ds)) \<le> length (take n ds)" by (rule card_length)
  ultimately show False using assms(2) by simp
qed

text \<open>Copy-constructing the fresh handles \<open>hs\<close> from \<open>h0\<close>, one after the other.\<close>

lemma run_copies:
  assumes "refcount_inv s" and "objs s h0 = Some x" and "distinct hs"
    and "\<forall>h \<in> set hs. objs s h = None"
    and "card (dom (objs s)) + length hs \<le> INT_MAX"
  shows "\<exists>t. run s (map (\<lambda>h. Copy h h0) hs) = Some t \<and> refcount_inv t \<and> trace t = trace s \<and>
             (\<forall>h. objs t h = (if h \<in> set hs then Some x else objs s h))"
  using assms
proof (induction hs arbitrary: s)
  case Nil
  then show ?case by simp
next
  case (Cons h hs)
  from Cons.prems have f: "objs s h = None" by simp
  from acquire_defined [OF Cons.prems(1,2)] obtain s1 where a: "acquire s h h0 = Some s1" by blast
  with f have st: "step s (Copy h h0) = Some s1" by (simp add: SharedPtr_copy_def)
  from Cons.prems(5) have b: "card (dom (objs s)) < INT_MAX" by simp
  have i1: "refcount_inv s1" using Cons.prems(1) st b by (rule step_inv)
  from acquire_result [OF a Cons.prems(2)]
  have o1: "objs s1 = (objs s)(h \<mapsto> x)" and t1: "trace s1 = trace s"
    by (simp_all add: SharedPtr_eta)
  from f Cons.prems(2) have ne: "h \<noteq> h0" by auto
  with o1 Cons.prems(2) have x1: "objs s1 h0 = Some x" by simp
  from Cons.prems(3) have d: "distinct hs" and nin: "h \<notin> set hs" by simp_all
  from Cons.prems(4) o1 nin have fr: "\<forall>k \<in> set hs. objs s1 k = None" by auto
  from step_card [OF st inv_finite [OF Cons.prems(1)]] Cons.prems(5)
  have b1: "card (dom (objs s1)) + length hs \<le> INT_MAX" by simp
  from Cons.IH [OF i1 x1 d fr b1] obtain t where
    t: "run s1 (map (\<lambda>h. Copy h h0) hs) = Some t" "refcount_inv t" "trace t = trace s1"
       "\<forall>k. objs t k = (if k \<in> set hs then Some x else objs s1 k)"
    by blast
  from t(1) st have "run s (map (\<lambda>h. Copy h h0) (h # hs)) = Some t" by simp
  moreover from t(4) o1 have "\<forall>k. objs t k = (if k \<in> set (h # hs) then Some x else objs s k)"
    by auto
  ultimately show ?case using t(2,3) t1 by auto
qed

text \<open>Destroying one handle of the group of cell \<open>c\<close>.\<close>

lemma destroy_member:
  assumes i: "refcount_inv s" and x: "objs s h = Some x" and c: "count x = Some c"
  shows "\<exists>t. step s (Destroy h) = Some t \<and> refcount_inv t \<and> objs t = (objs s)(h := None) \<and>
             trace t = (if owners s c = {h}
                        then trace s @ [Invoke (deleter x) (ptr x), Delete c] else trace s)"
proof -
  from inv_alloc [OF i x c] obtain v where v: "cells s c = Some v" by blast
  have hin: "h \<in> owners s c" using x c by (auto simp: owners_iff)
  have sole: "(v = 1) = (owners s c = {h})"
  proof
    assume "v = 1"
    with i x c v show "owners s c = {h}" by (simp add: inv_sole_owner)
  next
    assume "owners s c = {h}"
    with inv_count [OF i v] have "sint v = 1" by simp
    then show "v = 1" by (simp add: sint_eq_1)
  qed
  obtain s1 where r: "release s h = Some s1"
    and tr: "trace s1 = (if v = 1 then trace s @ [Invoke (deleter x) (ptr x), Delete c] else trace s)"
    and o: "objs s1 = objs s"
    using x c v by (cases "v = 1") (simp_all add: release_last release_shared)
  let ?t = "s1\<lparr>objs := (objs s1)(h := None)\<rparr>"
  have "step s (Destroy h) = Some ?t" using r by (simp add: SharedPtr_dtor_def)
  moreover have "refcount_inv ?t" by (rule detach_inv [OF i r]) (simp_all add: o)
  ultimately show ?thesis using tr o sole by auto
qed

text \<open>Destroying the handles \<open>ds\<close>, all of them members of the group of cell \<open>c\<close>.\<close>

lemma run_destroys:
  assumes "refcount_inv s" and "distinct ds" and "\<forall>h \<in> set ds. objs s h = Some x" and "count x = Some c"
  shows "\<exists>t. run s (map Destroy ds) = Some t \<and> refcount_inv t \<and>
             (\<forall>h. objs t h = (if h \<in> set ds then None else objs s h)) \<and>
             trace t = (if ds \<noteq> [] \<and> owners s c \<subseteq> set ds
                        then trace s @ [Invoke (deleter x) (ptr x), Delete c] else trace s)"
  using assms
proof (induction ds arbitrary: s)
  case Nil
  then show ?case by simp
next
  case (Cons h ds)
  from Cons.prems have x: "objs s h = Some x" by simp
  from destroy_member [OF Cons.prems(1) x Cons.prems(4)] obtain s1 where
    st: "step s (Destroy h) = Some s1" and i1: "refcount_inv s1" and o1: "objs s1 = (objs s)(h := None)"
    and t1: "trace s1 = (if owners s c = {h}
                        then trace s @ [Invoke (deleter x) (ptr x), Delete c] else trace s)"
    by blast
  from Cons.prems(2) have d: "distinct ds" and nin: "h \<notin> set ds" by simp_all
  from Cons.prems(3) o1 nin have m: "\<forall>k \<in> set ds. objs s1 k = Some x" by auto
  from Cons.IH [OF i1 d m Cons.prems(4)] obtain t where
    t: "run s1 (map Destroy ds) = Some t" "refcount_inv t"
       "\<forall>k. objs t k = (if k \<in> set ds then None else objs s1 k)"
       "trace t = (if ds \<noteq> [] \<and> owners s1 c \<subseteq> set ds
                        then trace s1 @ [Invoke (deleter x) (ptr x), Delete c] else trace s1)"
    by blast
  have ow1: "owners s1 c = owners s c - {h}" using o1 by (rule owners_del)
  have hin: "h \<in> owners s c" using x Cons.prems(4) by (auto simp: owners_iff)
  have sub: "set ds \<subseteq> owners s c"
    using Cons.prems(3,4) by (auto simp: owners_iff)
  have tr: "trace t = (if owners s c \<subseteq> set (h # ds)
                        then trace s @ [Invoke (deleter x) (ptr x), Delete c] else trace s)"
  proof (cases "owners s c = {h}")
    case True
    with sub nin have "ds = []" by (cases ds) auto
    with t(4) t1 True show ?thesis by simp
  next
    case False
    with hin have "(ds \<noteq> [] \<and> owners s1 c \<subseteq> set ds) = (owners s c \<subseteq> set (h # ds))"
      unfolding ow1 by (cases ds) auto
    with t(4) t1 False show ?thesis by simp
  qed
  from t(1) st have "run s (map Destroy (h # ds)) = Some t" by simp
  moreover from t(3) o1 have "\<forall>k. objs t k = (if k \<in> set (h # ds) then None else objs s k)"
    by auto
  ultimately show ?case using t(2) tr by auto
qed

lemma inv_bound_once: "refcount_inv bound_once"
  by (rule run_inv [OF inv_init bound_once_run]) (simp add: init_def INT_MAX_def)

text \<open>
  Claim C1. Let \<open>h0\<close> be a live handle with resource pointer \<open>ptr x\<close>, cleanup routine
  \<open>deleter x\<close> and counter cell \<open>c\<close>, whose \<open>use_count()\<close> is 1 (as after bound
  construction). Copy it \<open>N = length hs\<close> times into the fresh handles \<open>hs\<close>, then destroy
  all \<open>N + 1\<close> handles in any order \<open>ds\<close>, with fewer than \<open>2^31\<close> handles alive so that
  the \<open>int\<close> counter does not overflow. Then after the copies and any number \<open>n\<close> of
  destructions short of all of them the trace is unchanged (no cleanup call yet), and
  after the last destruction the trace has gained exactly one call of \<open>deleter x\<close> on
  \<open>ptr x\<close>, followed by the deallocation of the cell.
\<close>

theorem cleanup_exactly_once:
  assumes "refcount_inv s" and "objs s h0 = Some x" and "count x = Some c"
    and "use_count s h0 = Some 1"
    and "distinct hs" and "\<forall>h \<in> set hs. objs s h = None"
    and "card (dom (objs s)) + length hs \<le> INT_MAX"
    and "distinct ds" and "set ds = insert h0 (set hs)"
  shows "(\<forall>n < length ds. \<exists>t.
            run s (map (\<lambda>h. Copy h h0) hs @ map Destroy (take n ds)) = Some t \<and>
            trace t = trace s)
       \<and> (\<exists>u. run s (map (\<lambda>h. Copy h h0) hs @ map Destroy ds) = Some u \<and>
              trace u = trace s @ [Invoke (deleter x) (ptr x), Delete c] \<and>
              cells u c = None)"
proof -
  from run_copies [OF assms(1,2,5,6,7)] obtain t0 where
    t0: "run s (map (\<lambda>h. Copy h h0) hs) = Some t0" and i0: "refcount_inv t0"
    and tr0: "trace t0 = trace s"
    and o0: "\<forall>h. objs t0 h = (if h \<in> set hs then Some x else objs s h)"
    by blast
  have sole: "owners s c = {h0}"
    using assms(1,2,3) use_count_1 [OF assms(2,3,4)] by (rule inv_sole_owner)
  have ow0: "owners t0 c = set ds"
  proof (intro set_eqI iffI)
    fix h assume "h \<in> owners t0 c"
    then have "h \<in> set hs \<or> h \<in> owners s c"
      using o0 by (auto simp: owners_iff split: if_splits)
    with sole assms(9) show "h \<in> set ds" by auto
  next
    fix h assume "h \<in> set ds"
    with assms(9) have "h \<in> set hs \<or> h = h0" by auto
    with o0 assms(2,3) show "h \<in> owners t0 c" by (auto simp: owners_iff)
  qed
  have mem: "\<forall>h \<in> set ds. objs t0 h = Some x"
    using o0 assms(2,9) by auto
  have part1: "\<forall>n < length ds. \<exists>t.
            run s (map (\<lambda>h. Copy h h0) hs @ map Destroy (take n ds)) = Some t \<and>
            trace t = trace s"
  proof (intro allI impI)
    fix n assume n: "n < length ds"
    have d: "distinct (take n ds)" using assms(8) by simp
    have m: "\<forall>h \<in> set (take n ds). objs t0 h = Some x"
      using mem by (auto dest: in_set_takeD)
    from run_destroys [OF i0 d m assms(3)] obtain t where
      t: "run t0 (map Destroy (take n ds)) = Some t" and
      tr: "trace t = (if take n ds \<noteq> [] \<and> owners t0 c \<subseteq> set (take n ds)
                        then trace t0 @ [Invoke (deleter x) (ptr x), Delete c] else trace t0)"
      by blast
    from take_not_all [OF assms(8) n] ow0 tr tr0 have "trace t = trace s" by simp
    with t t0 show "\<exists>t. run s (map (\<lambda>h. Copy h h0) hs @ map Destroy (take n ds)) = Some t \<and>
            trace t = trace s"
      by (simp add: run_append)
  qed
  from run_destroys [OF i0 assms(8) mem assms(3)] obtain u where
    u: "run t0 (map Destroy ds) = Some u" and iu: "refcount_inv u" and
    ou: "\<forall>h. objs u h = (if h \<in> set ds then None else objs t0 h)" and
    tr: "trace u = (if ds \<noteq> [] \<and> owners t0 c \<subseteq> set ds
                        then trace t0 @ [Invoke (deleter x) (ptr x), Delete c] else trace t0)"
    by blast
  from assms(9) have "ds \<noteq> []" by auto
  with tr ow0 tr0 have tru: "trace u = trace s @ [Invoke (deleter x) (ptr x), Delete c]"
    by simp
  have "owners u c = {}"
  proof (rule ccontr)
    assume "owners u c \<noteq> {}"
    then obtain h where h: "h \<in> owners u c" by blast
    with ou have "h \<notin> set ds" "h \<in> owners t0 c"
      by (auto simp: owners_iff split: if_splits)
    with ow0 show False by simp
  qed
  with iu have "cells u c = None"
    by (cases "cells u c") (auto dest: inv_nonempty)
  with u t0 tru have "\<exists>u. run s (map (\<lambda>h. Copy h h0) hs @ map Destroy ds) = Some u \<and>
              trace u = trace s @ [Invoke (deleter x) (ptr x), Delete c] \<and>
              cells u c = None"
    by (simp add: run_append)
  with part1 show ?thesis by blast
qed

theorem cleanup_exactly_once_witness:
  "refcount_inv bound_once \<and> use_count bound_once 1 = Some 1 \<and>
   (\<exists>t. run bound_once [Copy 2 1, Copy 3 1, Destroy 2, Destroy 1] = Some t \<and>
        trace t = [New 100]) \<and>
   (\<exists>u. run bound_once [Copy 2 1, Copy 3 1, Destroy 2, Destroy 1, Destroy 3] = Some u \<and>
        trace u = [New 100, Invoke (UserDeleter 7) (Some 5), Delete 100] \<and>
        cells u 100 = None)"
proof -
  let ?x = "\<lparr>ptr = Some 5, count = Some 100, deleter = UserDeleter 7\<rparr>"
  have x: "objs bound_once 1 = Some ?x" by (simp add: bound_once_def)
  have c: "count ?x = Some 100" by simp
  have u1: "use_count bound_once 1 = Some 1" by (simp add: bound_once_def use_count_def)
  have d: "distinct [2, 3 :: addr]" by simp
  have f: "\<forall>h \<in> set [2, 3 :: addr]. objs bound_once h = None" by (simp add: bound_once_def)
  have b: "card (dom (objs bound_once)) + length [2, 3 :: addr] \<le> INT_MAX"
    by (simp add: bound_once_def INT_MAX_def)
  have dd: "distinct [2, 1, 3 :: addr]" by simp
  have sd: "set [2, 1, 3 :: addr] = insert 1 (set [2, 3])" by auto
  from cleanup_exactly_once [OF inv_bound_once x c u1 d f b dd sd]
  have "(\<forall>n < 3. \<exists>t.
            run bound_once (map (\<lambda>h. Copy h 1) [2, 3] @ map Destroy (take n [2, 1, 3])) = Some t \<and>
            trace t = trace bound_once)"
    and "\<exists>u. run bound_once (map (\<lambda>h. Copy h 1) [2, 3] @ map Destroy [2, 1, 3]) = Some u \<and>
              trace u = trace bound_once @ [Invoke (deleter ?x) (ptr ?x), Delete 100] \<and>
              cells u 100 = None"
    by simp_all
  from this(1) [rule_format, of 2] this(2) inv_bound_once u1 show ?thesis
    by (simp add: bound_once_def numeral_2_eq_2)
qed

end
